theory Spec2Isabelle
  imports Complex_Main "HOL-Library.Log_Nat"
begin

section \<open>Traffic data store (TrafficDataContext)\<close>

text \<open>
  The provider keeps one list of traffic points in React state. The store copies the
  numbers of a point and never computes with them, so each is modelled as the real it
  denotes; a timestamp is the ISO string the code stores and never parses.
\<close>

record TrafficData =
  road_segment_id :: string
  latitude :: real
  longitude :: real
  flow_speed :: real
  congestion_level :: real
  timestamp :: string

text \<open>\<^verbatim>\<open>Array.prototype.findIndex\<close>: the index of the first match, or -1.\<close>

fun findIndex :: "('a \<Rightarrow> bool) \<Rightarrow> 'a list \<Rightarrow> int" where
  "findIndex P [] = - 1"
| "findIndex P (x # xs) =
     (if P x then 0
      else (let i = findIndex P xs in if i < 0 then - 1 else i + 1))"

text \<open>
  \<^verbatim>\<open>updateTrafficPoint\<close>: the state updater passed to \<^verbatim>\<open>setTrafficData\<close>, as a function
  from the previous list and the incoming point to the next list.
\<close>

definition updateTrafficPoint :: "TrafficData list \<Rightarrow> TrafficData \<Rightarrow> TrafficData list" where
  "updateTrafficPoint prev point =
     (let index = findIndex (\<lambda>p. road_segment_id p = road_segment_id point) prev
      in if index \<ge> 0 then prev[nat index := point] else prev @ [point])"


text \<open>
  The provider's state over time. The list is written by \<^verbatim>\<open>setTrafficData\<close> and
  \<^verbatim>\<open>updateTrafficPoint\<close> only; the component registers no timer and no effect, so
  the passing of time (\<open>Elapse\<close>, in seconds) leaves the list as it is.
\<close>

datatype store_event = UpdatePoint TrafficData | SetData "TrafficData list" | Elapse real

fun provider_step :: "TrafficData list \<Rightarrow> store_event \<Rightarrow> TrafficData list" where
  "provider_step trafficData (UpdatePoint point) = updateTrafficPoint trafficData point"
| "provider_step trafficData (SetData data) = data"
| "provider_step trafficData (Elapse dt) = trafficData"

definition provider_run :: "TrafficData list \<Rightarrow> store_event list \<Rightarrow> TrafficData list" where
  "provider_run = foldl provider_step"

fun writes_segment :: "string \<Rightarrow> store_event \<Rightarrow> bool" where
  "writes_segment s (UpdatePoint point) = (road_segment_id point = s)"
| "writes_segment s (SetData data) = True"
| "writes_segment s (Elapse dt) = False"

section \<open>Rendering helpers of the route planner\<close>

subsection \<open>Numbers of the source: IEEE 754 doubles\<close>

text \<open>
  The \<^verbatim>\<open>number\<close> values of the source are IEEE 754 binary64 doubles. A finite double
  is modelled by the real number it denotes; the doubles are the reals \<open>x\<close> with
  \<open>to_double x = x\<close>. \<open>expo x\<close> is the binary exponent of a positive real, the \<open>e\<close> with
  \<open>2\<^sup>e \<le> x < 2\<^sup>e\<^sup>+\<^sup>1\<close>; \<open>ulp x\<close> is the spacing of the doubles around \<open>x\<close> (53 significant
  bits, subnormal below \<open>2\<^sup>-\<^sup>1\<^sup>0\<^sup>2\<^sup>2\<close>); \<open>to_double\<close> rounds a real to the nearest double,
  ties to the even significand. Overflow to infinity is left out: the only arithmetic
  operation of \<^verbatim>\<open>formatTime\<close> is a division of a finite double by 60, which cannot
  overflow.
\<close>

definition expo :: "real \<Rightarrow> int" where
  "expo x = (if 1 \<le> x then bitlen \<lfloor>x\<rfloor> - 1 else - bitlen (\<lceil>1 / x\<rceil> - 1))"

definition ulp :: "real \<Rightarrow> real" where
  "ulp x = 2 powi (max (expo x) (- 1022) - 52)"

definition round_even :: "real \<Rightarrow> int" where
  "round_even y =
     (let f = \<lfloor>y\<rfloor>; d = y - of_int f in
      if d < 1 / 2 then f else if 1 / 2 < d then f + 1 else if even f then f else f + 1)"

definition to_double :: "real \<Rightarrow> real" where
  "to_double x =
     (if x = 0 then 0
      else if 0 < x then ulp x * of_int (round_even (x / ulp x))
      else - (ulp (- x) * of_int (round_even (- x / ulp (- x)))))"

text \<open>The operator \<^verbatim>\<open>/\<close> on doubles: the exact quotient, rounded to a double.\<close>

definition js_divide :: "real \<Rightarrow> real \<Rightarrow> real" where
  "js_divide a b = to_double (a / b)"

text \<open>
  \<^verbatim>\<open>Math.round\<close> gives the integer nearest to a double, a half rounded upwards, and
  \<^verbatim>\<open>Math.floor\<close> the floor; both are exact.
\<close>

definition Math_round :: "real \<Rightarrow> int" where
  "Math_round x = \<lfloor>x + 1 / 2\<rfloor>"

definition Math_floor :: "real \<Rightarrow> int" where
  "Math_floor x = \<lfloor>x\<rfloor>"

text \<open>
  The remainder operator \<^verbatim>\<open>%\<close> on integral doubles: it is exact, and the sign follows
  the dividend.
\<close>

definition js_rem :: "int \<Rightarrow> int \<Rightarrow> int" where
  "js_rem a b = (if a \<ge> 0 then a mod \<bar>b\<bar> else - ((- a) mod \<bar>b\<bar>))"

subsection \<open>Numbers in a template literal\<close>

text \<open>
  A template literal renders a number with \<^verbatim>\<open>Number::toString\<close>. For an integral
  double \<open>n\<close> this is: all the digits of \<open>n\<close> when \<open>n < 2\<^sup>5\<^sup>3\<close> (every digit is then
  needed to tell \<open>n\<close> from its neighbours); above that the shortest digit string, padded
  with zeros, that still rounds to \<open>n\<close> (the nearest to \<open>n\<close> among those of the same
  length, the even one on a tie); and from \<open>10\<^sup>2\<^sup>1\<close> on the exponent form
  \<^verbatim>\<open>d.ddde+x\<close>. \<open>show_digits\<close> writes a non-negative integer in decimal.
\<close>

definition digit_char :: "int \<Rightarrow> char" where
  "digit_char d = ''0123456789'' ! nat (d mod 10)"

function show_digits :: "int \<Rightarrow> string" where
  "show_digits n =
     (if n < 10 then [digit_char n] else show_digits (n div 10) @ [digit_char (n mod 10)])"
  by pat_completeness auto
termination
  by (relation "measure nat") auto

declare show_digits.simps [simp del]

definition round_trips :: "int \<Rightarrow> int \<Rightarrow> bool" where
  "round_trips n c = (to_double (of_int c) = of_int n)"

text \<open>
  \<open>shortest_decimal n nd k\<close>: the integer with the fewest significant digits, at least
  \<open>k\<close>, that rounds to the double \<open>n\<close>, which has \<open>nd\<close> digits.
\<close>

function shortest_decimal :: "int \<Rightarrow> nat \<Rightarrow> nat \<Rightarrow> int" where
  "shortest_decimal n nd k =
     (if nd \<le> k then n
      else
        (let p = 10 ^ (nd - k); lo = (n div p) * p; hi = lo + p in
         if round_trips n lo \<and> round_trips n hi then
           (if n - lo < hi - n then lo
            else if hi - n < n - lo then hi
            else if even (n div p) then lo else hi)
         else if round_trips n lo then lo
         else if round_trips n hi then hi
         else shortest_decimal n nd (Suc k)))"
  by pat_completeness auto
termination
  by (relation "measure (\<lambda>(n, nd, k). nd - k)") auto

declare shortest_decimal.simps [simp del]

definition exponent_form :: "string \<Rightarrow> string" where
  "exponent_form ds =
     (case rev (dropWhile (\<lambda>c. c = CHR ''0'') (rev ds)) of
        [] \<Rightarrow> ''0''
      | d # rest \<Rightarrow>
          (if rest = [] then [d] else d # CHR ''.'' # rest) @ ''e+'' @
          show_digits (int (length ds) - 1))"

definition number_string_nonneg :: "int \<Rightarrow> string" where
  "number_string_nonneg n =
     (if n < 2 ^ 53 then show_digits n
      else
        (let ds = show_digits (shortest_decimal n (length (show_digits n)) 1) in
         if length ds \<le> 21 then ds else exponent_form ds))"

definition number_string :: "int \<Rightarrow> string" where
  "number_string i =
     (if i < 0 then CHR ''-'' # number_string_nonneg (- i) else number_string_nonneg i)"

subsection \<open>\<^verbatim>\<open>formatTime\<close> (RoutePlanner.tsx)\<close>

definition formatTime :: "real \<Rightarrow> string" where
  "formatTime seconds =
     (let minutes = Math_round (js_divide seconds 60) in
      if minutes < 60 then number_string minutes @ '' min''
      else
        (let hours = Math_floor (js_divide (real_of_int minutes) 60);
             remainingMinutes = js_rem minutes 60
         in number_string hours @ ''h '' @ number_string remainingMinutes @ ''m''))"

section \<open>Formulas of the specification\<close>

text \<open>
  The definitions of this section follow the wording of the specification, not the
  source; the theorems compare the source's functions with them.
\<close>

text \<open>The exponential moving average of \<open>ApplySample\<close>: \<open>decay = exp (- dt / halfLife)\<close>.\<close>

definition ema_decay_spec :: "real \<Rightarrow> real \<Rightarrow> real" where
  "ema_decay_spec dt halfLife = exp (- dt / halfLife)"

definition ema_fold_spec :: "real \<Rightarrow> real \<Rightarrow> real \<Rightarrow> real \<Rightarrow> real" where
  "ema_fold_spec halfLife dt oldWeight observedWeight =
     ema_decay_spec dt halfLife * oldWeight + (1 - ema_decay_spec dt halfLife) * observedWeight"

text \<open>The congestion label of a route: thresholds 1.3 and 1.8 on the average weight.\<close>

definition average_weight_spec :: "real list \<Rightarrow> real" where
  "average_weight_spec ws = sum_list ws / real (length ws)"

definition congestion_label_spec :: "real \<Rightarrow> string" where
  "congestion_label_spec avg =
     (if avg < 13 / 10 then ''light'' else if avg < 18 / 10 then ''moderate'' else ''heavy'')"

text \<open>The effective edge cost: the free-flow cost times the clamped weight.\<close>

definition clamp :: "real \<Rightarrow> real \<Rightarrow> real \<Rightarrow> real" where
  "clamp x lo hi = max lo (min hi x)"

definition effective_cost_spec :: "real \<Rightarrow> real \<Rightarrow> real \<Rightarrow> real" where
  "effective_cost_spec freeFlowCost weight maxCongestionMultiplier =
     freeFlowCost * clamp weight 1 maxCongestionMultiplier"

section \<open>The routing core of the specification\<close>

text \<open>
  The source files send a route request to the endpoint \<^verbatim>\<open>/api/routes/optimize\<close> and
  show what comes back; the code that answers the request is not among them. The
  definitions of this section model that code from the specification.
\<close>

text \<open>Modelled from the spec: the Node of the data model (identifier and coordinate); the
  road network is not part of the source files.\<close>

record Node =
  node_id :: nat
  node_lat :: real
  node_lng :: real

text \<open>Modelled from the spec: the Edge of the data model, a directed road segment with
  its free-flow traversal cost and its length; the geometry, opaque to routing, is left
  out. The road network is not part of the source files.\<close>

record Edge =
  edge_id :: nat
  edge_source :: nat
  edge_dest :: nat
  free_flow_cost :: real
  edge_length :: real

text \<open>Modelled from the spec: the Road Network Graph, static after load; it is not part
  of the source files.\<close>

record Graph =
  nodes :: "Node list"
  edges :: "Edge list"

text \<open>Modelled from the spec: the Weight Snapshot, the weight of every edge (by edge
  identifier) at one instant; the live weight store is not part of the source files.\<close>

type_synonym WeightSnapshot = "nat \<Rightarrow> real"

text \<open>Modelled from the spec: a search label, the cost and the edge sequence of the best
  route found so far to a node; the route search is not part of the source files.\<close>

type_synonym label = "real \<times> Edge list"

text \<open>Modelled from the spec: the query-time failures of the error taxonomy; the query
  coordinator is not part of the source files.\<close>

datatype route_error = UnresolvableLocation | NoRouteFound | RouteSearchTimeout

text \<open>Modelled from the spec: the identifiers of the node set, in load order; the road
  network is not part of the source files.\<close>

definition node_ids :: "Graph \<Rightarrow> nat list" where
  "node_ids g = map node_id (nodes g)"

text \<open>Modelled from the spec: the invariant of a loaded network that the endpoints of
  every edge exist in the node set (\<open>LoadNetwork\<close> fails on dangling endpoints);
  \<open>LoadNetwork\<close> is not part of the source files.\<close>

definition wf_graph :: "Graph \<Rightarrow> bool" where
  "wf_graph g =
     list_all (\<lambda>e. edge_source e \<in> set (node_ids g) \<and> edge_dest e \<in> set (node_ids g))
       (edges g)"

text \<open>Modelled from the spec: \<open>Neighbors\<close>, the ordered sequence of the edges that leave a
  node; the road network is not part of the source files.\<close>

definition Neighbors :: "Graph \<Rightarrow> nat \<Rightarrow> Edge list" where
  "Neighbors g u = filter (\<lambda>e. edge_source e = u) (edges g)"

text \<open>Modelled from the spec: the effective cost of an edge under a snapshot, its free-flow
  cost times its weight clamped between 1.0 and the maximum congestion multiplier; the
  live weight store is not part of the source files.\<close>

definition edge_cost :: "real \<Rightarrow> WeightSnapshot \<Rightarrow> Edge \<Rightarrow> real" where
  "edge_cost maxMult snap e =
     effective_cost_spec (free_flow_cost e) (snap (edge_id e)) maxMult"

text \<open>Modelled from the spec: the total distance of an edge sequence; the route search is
  not part of the source files.\<close>

definition route_distance :: "Edge list \<Rightarrow> real" where
  "route_distance r = sum_list (map edge_length r)"

text \<open>Modelled from the spec: the order on labels with the tie-break policy, lower total
  cost first, then fewer edges, then lower total distance; the route search is not part
  of the source files.\<close>

definition better :: "label \<Rightarrow> label \<Rightarrow> bool" where
  "better a b =
     (fst a < fst b \<or>
      (fst a = fst b \<and>
       (length (snd a) < length (snd b) \<or>
        (length (snd a) = length (snd b) \<and>
         route_distance (snd a) < route_distance (snd b)))))"

text \<open>Modelled from the spec: the priority queue of the search, as a scan of the unvisited
  nodes for the labelled node with the best label (the earlier node on a full tie); the
  route search is not part of the source files.\<close>

fun pick_min :: "nat list \<Rightarrow> (nat \<Rightarrow> label option) \<Rightarrow> nat option" where
  "pick_min [] L = None"
| "pick_min (q # qs) L =
     (case L q of
        None \<Rightarrow> pick_min qs L
      | Some lq \<Rightarrow>
          (case pick_min qs L of
             None \<Rightarrow> Some q
           | Some r \<Rightarrow>
               (case L r of
                  None \<Rightarrow> Some q
                | Some lr \<Rightarrow> if better lr lq then Some r else Some q)))"

text \<open>Modelled from the spec: the relaxation of one edge in Dijkstra's search: an unvisited
  destination takes the route through the edge when that is better than its label; the
  route search is not part of the source files.\<close>

definition relax ::
  "(Edge \<Rightarrow> real) \<Rightarrow> nat list \<Rightarrow> label \<Rightarrow> Edge \<Rightarrow> (nat \<Rightarrow> label option) \<Rightarrow>
   (nat \<Rightarrow> label option)" where
  "relax cost Q lu e L =
     (let v = edge_dest e; cand = (fst lu + cost e, snd lu @ [e]) in
      if v \<notin> set Q then L
      else (case L v of
              None \<Rightarrow> L(v \<mapsto> cand)
            | Some old \<Rightarrow> if better cand old then L(v \<mapsto> cand) else L))"

text \<open>Modelled from the spec: the relaxation of a sequence of edges, in order; the route
  search is not part of the source files.\<close>

fun relax_edges ::
  "(Edge \<Rightarrow> real) \<Rightarrow> nat list \<Rightarrow> label \<Rightarrow> Edge list \<Rightarrow> (nat \<Rightarrow> label option) \<Rightarrow>
   (nat \<Rightarrow> label option)" where
  "relax_edges cost Q lu [] L = L"
| "relax_edges cost Q lu (e # es) L = relax_edges cost Q lu es (relax cost Q lu e L)"

text \<open>Modelled from the spec: the expansion of a node in Dijkstra's search, the relaxation
  of the edges that leave it; the route search is not part of the source files.\<close>

definition settle ::
  "(Edge \<Rightarrow> real) \<Rightarrow> Graph \<Rightarrow> nat list \<Rightarrow> nat \<Rightarrow> (nat \<Rightarrow> label option) \<Rightarrow>
   (nat \<Rightarrow> label option)" where
  "settle cost g Q u L =
     (case L u of None \<Rightarrow> L | Some lu \<Rightarrow> relax_edges cost Q lu (Neighbors g u) L)"

text \<open>Modelled from the spec: the loop of the Route Search Engine, Dijkstra's search with
  an expanded-node budget: no labelled unvisited node is left (\<open>NoRouteFound\<close>), or the
  best one is the destination (its label is the route), or it is expanded, which the
  budget must allow (\<open>RouteSearchTimeout\<close>). The route search is not part of the source
  files.\<close>

fun search ::
  "nat \<Rightarrow> (Edge \<Rightarrow> real) \<Rightarrow> Graph \<Rightarrow> nat \<Rightarrow> nat list \<Rightarrow> (nat \<Rightarrow> label option) \<Rightarrow>
   route_error + label" where
  "search budget cost g t Q L =
     (case pick_min Q L of
        None \<Rightarrow> Inl NoRouteFound
      | Some u \<Rightarrow>
          if u = t then (case L u of None \<Rightarrow> Inl NoRouteFound | Some l \<Rightarrow> Inr l)
          else (case budget of
                  0 \<Rightarrow> Inl RouteSearchTimeout
                | Suc b \<Rightarrow>
                    search b cost g t (removeAll u Q) (settle cost g (removeAll u Q) u L)))"

declare search.simps [simp del]

text \<open>Modelled from the spec: the Route Search Engine from an origin node to a destination
  node: all nodes unvisited, the origin labelled with cost 0 and the empty route. The
  route search is not part of the source files.\<close>

definition route_search ::
  "nat \<Rightarrow> (Edge \<Rightarrow> real) \<Rightarrow> Graph \<Rightarrow> nat \<Rightarrow> nat \<Rightarrow> route_error + label" where
  "route_search budget cost g s t =
     search budget cost g t (node_ids g) (Map.empty(s \<mapsto> (0, [])))"

text \<open>Modelled from the spec: a contiguous path, an edge sequence of the graph that leads
  from one node to another; the road network is not part of the source files.\<close>

fun walk :: "Graph \<Rightarrow> nat \<Rightarrow> Edge list \<Rightarrow> nat \<Rightarrow> bool" where
  "walk g u [] v = (u = v)"
| "walk g u (e # p) v =
     (e \<in> set (edges g) \<and> edge_source e = u \<and> walk g (edge_dest e) p v)"

text \<open>Modelled from the spec: the total cost of an edge sequence under a cost function; the
  route search is not part of the source files.\<close>

definition path_cost :: "(Edge \<Rightarrow> real) \<Rightarrow> Edge list \<Rightarrow> real" where
  "path_cost cost p = sum_list (map cost p)"

text \<open>Modelled from the spec: a visited node of the search, a node of the graph that has
  left the unvisited list; the route search is not part of the source files.\<close>

definition settled :: "Graph \<Rightarrow> nat list \<Rightarrow> nat \<Rightarrow> bool" where
  "settled g Q x = (x \<in> set (node_ids g) \<and> x \<notin> set Q)"

text \<open>Modelled from the spec: the correctness invariant of Dijkstra's search that holds
  because all costs are non-negative: every label is a path from the origin with its
  cost; the edges out of a visited node are relaxed; visited nodes are labelled, with
  costs no higher than those of the unvisited; the origin is labelled with a cost of at
  most 0. The route search is not part of the source files.\<close>

definition search_inv ::
  "(Edge \<Rightarrow> real) \<Rightarrow> Graph \<Rightarrow> nat \<Rightarrow> nat list \<Rightarrow> (nat \<Rightarrow> label option) \<Rightarrow> bool" where
  "search_inv cost g s Q L =
     (set Q \<subseteq> set (node_ids g) \<and>
      (\<forall>v l. L v = Some l \<longrightarrow> walk g s (snd l) v \<and> path_cost cost (snd l) = fst l) \<and>
      (\<forall>x lx. settled g Q x \<and> L x = Some lx \<longrightarrow>
         (\<forall>e \<in> set (edges g). edge_source e = x \<longrightarrow>
            (\<exists>l'. L (edge_dest e) = Some l' \<and> fst l' \<le> fst lx + cost e))) \<and>
      (\<forall>x. settled g Q x \<longrightarrow> L x \<noteq> None) \<and>
      (\<forall>x y lx ly. settled g Q x \<and> L x = Some lx \<and> y \<in> set Q \<and> L y = Some ly \<longrightarrow>
         fst lx \<le> fst ly) \<and>
      (\<exists>ls. L s = Some ls \<and> fst ls \<le> 0))"

text \<open>Modelled from the spec: the node of the graph nearest to a coordinate under a given
  distance (the earlier node on a tie), \<open>NearestNode\<close>; the road network is not part of
  the source files.\<close>

fun nearest_node :: "(Node \<Rightarrow> real) \<Rightarrow> Node list \<Rightarrow> Node option" where
  "nearest_node d [] = None"
| "nearest_node d (n # ns) =
     (case nearest_node d ns of
        None \<Rightarrow> Some n
      | Some m \<Rightarrow> if d m < d n then Some m else Some n)"

text \<open>Modelled from the spec: \<open>NearestNode\<close> of the Road Network Graph, for a distance
  between coordinates that the spec leaves open; the road network is not part of the
  source files.\<close>

definition NearestNode ::
  "(real \<times> real \<Rightarrow> real \<times> real \<Rightarrow> real) \<Rightarrow> Graph \<Rightarrow> real \<times> real \<Rightarrow> Node option" where
  "NearestNode metric g c = nearest_node (\<lambda>n. metric c (node_lat n, node_lng n)) (nodes g)"

text \<open>Modelled from the spec: the first step of \<open>PlanRoute\<close>, which resolves a coordinate
  to its nearest node and fails with \<open>UnresolvableLocation\<close> when that node is farther
  than the maximum snap distance; the query coordinator is not part of the source files.\<close>

definition resolve_location ::
  "(real \<times> real \<Rightarrow> real \<times> real \<Rightarrow> real) \<Rightarrow> real \<Rightarrow> Graph \<Rightarrow> real \<times> real \<Rightarrow> route_error + nat" where
  "resolve_location metric maxSnap g c =
     (case NearestNode metric g c of
        None \<Rightarrow> Inl UnresolvableLocation
      | Some n \<Rightarrow>
          if metric c (node_lat n, node_lng n) > maxSnap then Inl UnresolvableLocation
          else Inr (node_id n))"

text \<open>Modelled from the spec: the option \<open>optimize_for\<close> of a route request, time or
  distance; the query coordinator is not part of the source files.\<close>

datatype optimize_target = OptimizeTime | OptimizeDistance

text \<open>Modelled from the spec: the cost function that the options select, the effective
  cost for time and the edge length for distance. The spec names neither a road class
  for \<open>avoid_major_roads\<close> nor a penalty factor for \<open>alternatives\<close>; the model has the
  best route only. The query coordinator is not part of the source files.\<close>

definition options_cost :: "optimize_target \<Rightarrow> real \<Rightarrow> WeightSnapshot \<Rightarrow> Edge \<Rightarrow> real" where
  "options_cost target maxMult snap e =
     (case target of
        OptimizeTime \<Rightarrow> edge_cost maxMult snap e
      | OptimizeDistance \<Rightarrow> edge_length e)"

text \<open>Modelled from the spec: the Route of the data model: the edge sequence, the total
  cost, the total distance, the weight of each edge at snapshot time and the congestion
  label of the average weight; the route search is not part of the source files.\<close>

record Route =
  route_edges :: "Edge list"
  total_cost :: real
  total_distance :: real
  congestion_breakdown :: "(nat \<times> real) list"
  traffic_status :: string

text \<open>Modelled from the spec: the translation of a search label into the Route that
  \<open>PlanRoute\<close> returns; the query coordinator is not part of the source files.\<close>

definition make_route :: "WeightSnapshot \<Rightarrow> label \<Rightarrow> Route" where
  "make_route snap l =
     \<lparr>route_edges = snd l,
      total_cost = fst l,
      total_distance = route_distance (snd l),
      congestion_breakdown = map (\<lambda>e. (edge_id e, snap (edge_id e))) (snd l),
      traffic_status =
        congestion_label_spec (average_weight_spec (map (\<lambda>e. snap (edge_id e)) (snd l)))\<rparr>"

text \<open>Modelled from the spec: the configuration of the core: the maximum congestion
  multiplier, the expanded-node budget of a search and the maximum snap distance; the
  routing core is not part of the source files.\<close>

record EngineConfig =
  max_congestion_multiplier :: real
  node_budget :: nat
  max_snap_distance :: real

text \<open>Modelled from the spec: \<open>PlanRoute\<close> of the Query Coordinator: resolve both
  coordinates, search over the given snapshot with the cost function of the options,
  translate the result; every failure is a value of the error type. The query
  coordinator is not part of the source files.\<close>

definition PlanRoute ::
  "(real \<times> real \<Rightarrow> real \<times> real \<Rightarrow> real) \<Rightarrow> EngineConfig \<Rightarrow> Graph \<Rightarrow> WeightSnapshot \<Rightarrow>
   real \<times> real \<Rightarrow> real \<times> real \<Rightarrow> optimize_target \<Rightarrow> route_error + Route" where
  "PlanRoute metric cfg g snap originCoord destCoord target =
     (case resolve_location metric (max_snap_distance cfg) g originCoord of
        Inl err \<Rightarrow> Inl err
      | Inr s \<Rightarrow>
          (case resolve_location metric (max_snap_distance cfg) g destCoord of
             Inl err \<Rightarrow> Inl err
           | Inr t \<Rightarrow>
               (case route_search (node_budget cfg)
                       (options_cost target (max_congestion_multiplier cfg) snap) g s t of
                  Inl err \<Rightarrow> Inl err
                | Inr l \<Rightarrow> Inr (make_route snap l))))"

text \<open>Modelled from the spec: the network of the concrete scenarios, with the nodes A, B
  and C (0, 1 and 2) and the edges from A to B (cost 10), from A to C (cost 4) and from C
  to B (cost 4); the road network is not part of the source files.\<close>

definition scenario_graph :: Graph where
  "scenario_graph =
     \<lparr>nodes = [\<lparr>node_id = 0, node_lat = 0, node_lng = 0\<rparr>,
               \<lparr>node_id = 1, node_lat = 0, node_lng = 2\<rparr>,
               \<lparr>node_id = 2, node_lat = 1, node_lng = 1\<rparr>],
      edges = [\<lparr>edge_id = 0, edge_source = 0, edge_dest = 1, free_flow_cost = 10,
                 edge_length = 10\<rparr>,
               \<lparr>edge_id = 1, edge_source = 0, edge_dest = 2, free_flow_cost = 4,
                 edge_length = 4\<rparr>,
               \<lparr>edge_id = 2, edge_source = 2, edge_dest = 1, free_flow_cost = 4,
                 edge_length = 4\<rparr>]\<rparr>"

text \<open>Modelled from the spec: the snapshot of the scenarios with every weight 1.0; the
  live weight store is not part of the source files.\<close>

definition free_flow_snapshot :: WeightSnapshot where
  "free_flow_snapshot eid = 1"

text \<open>Modelled from the spec: a distance between coordinates for the scenarios (the spec
  leaves the distance of \<open>NearestNode\<close> open), the sum of the differences in latitude
  and longitude; the road network is not part of the source files.\<close>

definition plane_distance :: "real \<times> real \<Rightarrow> real \<times> real \<Rightarrow> real" where
  "plane_distance a b = \<bar>fst a - fst b\<bar> + \<bar>snd a - snd b\<bar>"

text \<open>Modelled from the spec: a snapshot with the same weight on every edge, for the
  scenarios; the live weight store is not part of the source files.\<close>

definition uniform_snapshot :: "real \<Rightarrow> WeightSnapshot" where
  "uniform_snapshot w eid = w"


section \<open>Properties of the store update\<close>

lemma findIndex_range: "findIndex P xs = - 1 \<or> (0 \<le> findIndex P xs \<and> findIndex P xs < int (length xs))"
  by (induction xs) (auto simp: Let_def)

lemma findIndex_none: "(findIndex P xs < 0) = (\<forall>x \<in> set xs. \<not> P x)"
  using findIndex_range [of P] by (induction xs) (auto simp: Let_def)

lemma findIndex_hit: "0 \<le> findIndex P xs \<Longrightarrow> P (xs ! nat (findIndex P xs))"
  by (induction xs) (auto simp: Let_def nat_add_distrib split: if_splits)

lemma findIndex_first: "0 \<le> findIndex P xs \<Longrightarrow> j < nat (findIndex P xs) \<Longrightarrow> \<not> P (xs ! j)"
proof (induction xs arbitrary: j)
  case Nil
  then show ?case by simp
next
  case (Cons x xs)
  show ?case
  proof (cases "P x")
    case True
    with Cons.prems show ?thesis by simp
  next
    case False
    with Cons.prems have pos: "0 \<le> findIndex P xs"
      by (auto simp: Let_def split: if_splits)
    with False have idx: "findIndex P (x # xs) = findIndex P xs + 1"
      by (simp add: Let_def)
    show ?thesis
    proof (cases j)
      case 0
      with False show ?thesis by simp
    next
      case (Suc k)
      with Cons.prems idx pos have "k < nat (findIndex P xs)" by simp
      with Cons.IH [OF pos] Suc show ?thesis by simp
    qed
  qed
qed

lemma findIndex_distinct:
  assumes "distinct (map f xs)" and "i < length xs" and "f (xs ! i) = k"
  shows "findIndex (\<lambda>p. f p = k) xs = int i"
proof -
  let ?n = "findIndex (\<lambda>p. f p = k) xs"
  from assms have "\<not> (\<forall>x \<in> set xs. f x \<noteq> k)" by (metis nth_mem)
  then have pos: "0 \<le> ?n" using findIndex_none [of "\<lambda>p. f p = k" xs] by auto
  then have hit: "f (xs ! nat ?n) = k" by (rule findIndex_hit)
  from pos findIndex_range [of "\<lambda>p. f p = k" xs] have lt: "nat ?n < length xs" by auto
  from assms(1) have "\<forall>a < length xs. \<forall>b < length xs. f (xs ! a) = f (xs ! b) \<longrightarrow> a = b"
    by (auto simp: distinct_conv_nth)
  with assms(2,3) hit lt have "nat ?n = i"
    by blast
  with pos show ?thesis by simp
qed

lemma updateTrafficPoint_Nil: "updateTrafficPoint [] point = [point]"
  by (simp add: updateTrafficPoint_def)

lemma updateTrafficPoint_Cons:
  "updateTrafficPoint (x # xs) point =
     (if road_segment_id x = road_segment_id point then point # xs
      else x # updateTrafficPoint xs point)"
  using findIndex_range [of "\<lambda>p. road_segment_id p = road_segment_id point" xs]
  by (auto simp: updateTrafficPoint_def Let_def nat_add_distrib)

lemma find_updateTrafficPoint_other:
  "road_segment_id point \<noteq> s \<Longrightarrow>
   find (\<lambda>p. road_segment_id p = s) (updateTrafficPoint prev point) =
   find (\<lambda>p. road_segment_id p = s) prev"
  by (induction prev) (auto simp: updateTrafficPoint_Nil updateTrafficPoint_Cons)

text \<open>
  C9. On a list whose segment ids are pairwise distinct, \<^verbatim>\<open>updateTrafficPoint\<close> keeps the
  ids pairwise distinct: an entry carrying the point's id is overwritten at its own
  index, every other index keeping its entry, and without such an entry the point is
  appended at the end.
\<close>

theorem updateTrafficPoint_keeps_distinct_ids:
  assumes "distinct (map road_segment_id prev)"
  shows "distinct (map road_segment_id (updateTrafficPoint prev point)) \<and>
         (\<forall>i < length prev. road_segment_id (prev ! i) = road_segment_id point \<longrightarrow>
            updateTrafficPoint prev point = prev[i := point]) \<and>
         ((\<forall>p \<in> set prev. road_segment_id p \<noteq> road_segment_id point) \<longrightarrow>
            updateTrafficPoint prev point = prev @ [point])"
proof -
  let ?P = "\<lambda>p. road_segment_id p = road_segment_id point"
  have inplace: "updateTrafficPoint prev point = prev[i := point]"
    if "i < length prev" and "road_segment_id (prev ! i) = road_segment_id point" for i
  proof -
    from assms that have "findIndex ?P prev = int i"
      by (rule findIndex_distinct)
    then show ?thesis by (simp add: updateTrafficPoint_def)
  qed
  have appended: "updateTrafficPoint prev point = prev @ [point]"
    if "\<forall>p \<in> set prev. road_segment_id p \<noteq> road_segment_id point"
  proof -
    from that have "findIndex ?P prev < 0" by (simp add: findIndex_none)
    then show ?thesis by (simp add: updateTrafficPoint_def)
  qed
  have "distinct (map road_segment_id (updateTrafficPoint prev point))"
  proof (cases "\<forall>p \<in> set prev. road_segment_id p \<noteq> road_segment_id point")
    case True
    with assms appended show ?thesis by auto
  next
    case False
    then obtain i where i: "i < length prev" "road_segment_id (prev ! i) = road_segment_id point"
      by (auto simp: in_set_conv_nth)
    then have "map road_segment_id (prev[i := point]) = map road_segment_id prev"
      by (simp add: map_update list_update_same_conv)
    with assms inplace [OF i] show ?thesis by simp
  qed
  with inplace appended show ?thesis by blast
qed

theorem updateTrafficPoint_keeps_distinct_ids_witness:
  "distinct (map road_segment_id
     [\<lparr>road_segment_id = ''CT_001'', latitude = 0, longitude = 0, flow_speed = 60,
        congestion_level = 1 / 4, timestamp = ''t0''\<rparr>,
      \<lparr>road_segment_id = ''CT_002'', latitude = 1, longitude = 1, flow_speed = 30,
        congestion_level = 1 / 2, timestamp = ''t0''\<rparr>]) \<and>
   updateTrafficPoint
     [\<lparr>road_segment_id = ''CT_001'', latitude = 0, longitude = 0, flow_speed = 60,
        congestion_level = 1 / 4, timestamp = ''t0''\<rparr>,
      \<lparr>road_segment_id = ''CT_002'', latitude = 1, longitude = 1, flow_speed = 30,
        congestion_level = 1 / 2, timestamp = ''t0''\<rparr>]
     \<lparr>road_segment_id = ''CT_002'', latitude = 1, longitude = 1, flow_speed = 20,
       congestion_level = 3 / 4, timestamp = ''t1''\<rparr> =
     [\<lparr>road_segment_id = ''CT_001'', latitude = 0, longitude = 0, flow_speed = 60,
        congestion_level = 1 / 4, timestamp = ''t0''\<rparr>,
      \<lparr>road_segment_id = ''CT_002'', latitude = 1, longitude = 1, flow_speed = 20,
        congestion_level = 3 / 4, timestamp = ''t1''\<rparr>] \<and>
   distinct (map road_segment_id
     (updateTrafficPoint
       [\<lparr>road_segment_id = ''CT_001'', latitude = 0, longitude = 0, flow_speed = 60,
          congestion_level = 1 / 4, timestamp = ''t0''\<rparr>,
        \<lparr>road_segment_id = ''CT_002'', latitude = 1, longitude = 1, flow_speed = 30,
          congestion_level = 1 / 2, timestamp = ''t0''\<rparr>]
       \<lparr>road_segment_id = ''CT_002'', latitude = 1, longitude = 1, flow_speed = 20,
         congestion_level = 3 / 4, timestamp = ''t1''\<rparr>))"
proof -
  let ?a = "\<lparr>road_segment_id = ''CT_001'', latitude = 0, longitude = 0, flow_speed = 60,
        congestion_level = 1 / 4, timestamp = ''t0''\<rparr>"
  let ?b = "\<lparr>road_segment_id = ''CT_002'', latitude = 1, longitude = 1, flow_speed = 30,
        congestion_level = 1 / 2, timestamp = ''t0''\<rparr>"
  let ?p = "\<lparr>road_segment_id = ''CT_002'', latitude = 1, longitude = 1, flow_speed = 20,
       congestion_level = 3 / 4, timestamp = ''t1''\<rparr>"
  have d: "distinct (map road_segment_id [?a, ?b])" by simp
  from updateTrafficPoint_keeps_distinct_ids [OF d, of ?p]
  have dist: "distinct (map road_segment_id (updateTrafficPoint [?a, ?b] ?p))"
    and inplace: "\<forall>i < length [?a, ?b]. road_segment_id ([?a, ?b] ! i) = road_segment_id ?p \<longrightarrow>
           updateTrafficPoint [?a, ?b] ?p = [?a, ?b][i := ?p]"
    by blast+
  from inplace [rule_format, of 1]
  have "updateTrafficPoint [?a, ?b] ?p = [?a, ?p]"
    by simp
  with d dist show ?thesis by simp
qed

text \<open>
  C1, as the source has it. \<^verbatim>\<open>updateTrafficPoint\<close> replaces the entry of a segment
  wholesale: after the update, the entry found under the point's segment id is the
  incoming point itself, with its congestion level, speed and timestamp, whatever the
  previous entry and its timestamp were. Nothing of the old value is blended in.
\<close>

theorem updateTrafficPoint_replaces_wholesale:
  "find (\<lambda>p. road_segment_id p = road_segment_id point) (updateTrafficPoint prev point) =
   Some point"
  by (induction prev) (simp_all add: updateTrafficPoint_Nil updateTrafficPoint_Cons)

text \<open>
  C1, as stated, fails. With a half-life of 300 s, an entry of weight 1 and a sample of
  weight 3 arriving 300 s later, the moving average is \<open>3 - 2 * exp (- 1)\<close>, below 3;
  the stored value is 3.
\<close>

theorem updateTrafficPoint_not_ema_counterexample:
  "congestion_level
     (updateTrafficPoint
        [\<lparr>road_segment_id = ''CT_001'', latitude = 0, longitude = 0, flow_speed = 80,
           congestion_level = 1, timestamp = ''2024-05-01T08:00:00.000Z''\<rparr>]
        \<lparr>road_segment_id = ''CT_001'', latitude = 0, longitude = 0, flow_speed = 20,
          congestion_level = 3, timestamp = ''2024-05-01T08:05:00.000Z''\<rparr> ! 0) = 3 \<and>
   ema_fold_spec 300 300 1 3 < 3"
proof -
  have "exp (- 1 :: real) > 0" by simp
  then show ?thesis
    by (simp add: updateTrafficPoint_def ema_fold_spec_def ema_decay_spec_def algebra_simps)
qed

text \<open>
  C8, as the source has it. \<^verbatim>\<open>updateTrafficPoint\<close> validates nothing: whatever the
  timestamp and the speed of the incoming point, the new list is the old list with the
  first entry that carries the point's segment id replaced by the point, or with the
  point appended when there is no such entry. The entries of other segments keep their
  values and their order, the point is in the list afterwards, and the list never gets
  shorter.
\<close>

theorem updateTrafficPoint_folds_every_reading:
  "updateTrafficPoint prev point =
     takeWhile (\<lambda>p. road_segment_id p \<noteq> road_segment_id point) prev @
     point # drop 1 (dropWhile (\<lambda>p. road_segment_id p \<noteq> road_segment_id point) prev) \<and>
   filter (\<lambda>p. road_segment_id p \<noteq> road_segment_id point) (updateTrafficPoint prev point) =
     filter (\<lambda>p. road_segment_id p \<noteq> road_segment_id point) prev \<and>
   point \<in> set (updateTrafficPoint prev point) \<and>
   length prev \<le> length (updateTrafficPoint prev point)"
proof -
  have "updateTrafficPoint prev point =
     takeWhile (\<lambda>p. road_segment_id p \<noteq> road_segment_id point) prev @
     point # drop 1 (dropWhile (\<lambda>p. road_segment_id p \<noteq> road_segment_id point) prev)"
    by (induction prev) (simp_all add: updateTrafficPoint_Nil updateTrafficPoint_Cons)
  moreover
  have "filter (\<lambda>p. road_segment_id p \<noteq> road_segment_id point) (updateTrafficPoint prev point) =
     filter (\<lambda>p. road_segment_id p \<noteq> road_segment_id point) prev"
    by (induction prev) (simp_all add: updateTrafficPoint_Nil updateTrafficPoint_Cons)
  moreover
  have "point \<in> set (updateTrafficPoint prev point)"
    by (induction prev) (simp_all add: updateTrafficPoint_Nil updateTrafficPoint_Cons)
  moreover
  have "length prev \<le> length (updateTrafficPoint prev point)"
    by (induction prev) (simp_all add: updateTrafficPoint_Nil updateTrafficPoint_Cons)
  ultimately show ?thesis by blast
qed

text \<open>
  C8, as stated, fails: a reading with a negative speed and a timestamp decades old is
  not dropped; it overwrites the entry of its segment.
\<close>

theorem updateTrafficPoint_no_validation_counterexample:
  "updateTrafficPoint
     [\<lparr>road_segment_id = ''CT_001'', latitude = 0, longitude = 0, flow_speed = 80,
        congestion_level = 1 / 10, timestamp = ''2024-05-01T08:00:00.000Z''\<rparr>]
     \<lparr>road_segment_id = ''CT_001'', latitude = 0, longitude = 0, flow_speed = - 500,
       congestion_level = 9 / 10, timestamp = ''1999-12-31T23:59:59.000Z''\<rparr>
   \<noteq> [\<lparr>road_segment_id = ''CT_001'', latitude = 0, longitude = 0, flow_speed = 80,
        congestion_level = 1 / 10, timestamp = ''2024-05-01T08:00:00.000Z''\<rparr>]"
  by (simp add: updateTrafficPoint_def)

lemma provider_step_other:
  "\<not> writes_segment s e \<Longrightarrow>
   find (\<lambda>p. road_segment_id p = s) (provider_step st e) =
   find (\<lambda>p. road_segment_id p = s) st"
  by (cases e) (simp_all add: find_updateTrafficPoint_other)

text \<open>
  C6, as the source has it. An entry that receives no new reading keeps its stored
  value exactly, however much time passes: over any run of events that neither replaces
  the list nor updates segment \<open>s\<close>, the entry found under \<open>s\<close> is the same before
  and after.
\<close>

theorem provider_entry_frozen_without_writes:
  "\<forall>e \<in> set evs. \<not> writes_segment s e \<Longrightarrow>
   find (\<lambda>p. road_segment_id p = s) (provider_run st evs) =
   find (\<lambda>p. road_segment_id p = s) st"
  unfolding provider_run_def
  by (induction evs arbitrary: st) (simp_all add: provider_step_other)

theorem provider_entry_frozen_without_writes_witness:
  "\<not> writes_segment ''CT_001'' (Elapse 601) \<and>
   \<not> writes_segment ''CT_001''
       (UpdatePoint \<lparr>road_segment_id = ''CT_002'', latitude = 0, longitude = 0,
          flow_speed = 50, congestion_level = 0, timestamp = ''t1''\<rparr>) \<and>
   \<not> writes_segment ''CT_001'' (Elapse 86400) \<and>
   find (\<lambda>p. road_segment_id p = ''CT_001'')
     (provider_run
        [\<lparr>road_segment_id = ''CT_001'', latitude = 0, longitude = 0, flow_speed = 8,
           congestion_level = 9 / 10, timestamp = ''t0''\<rparr>]
        [Elapse 601,
         UpdatePoint \<lparr>road_segment_id = ''CT_002'', latitude = 0, longitude = 0,
           flow_speed = 50, congestion_level = 0, timestamp = ''t1''\<rparr>,
         Elapse 86400]) =
   Some \<lparr>road_segment_id = ''CT_001'', latitude = 0, longitude = 0, flow_speed = 8,
          congestion_level = 9 / 10, timestamp = ''t0''\<rparr>"
proof -
  let ?evs = "[Elapse 601,
               UpdatePoint \<lparr>road_segment_id = ''CT_002'', latitude = 0, longitude = 0,
                 flow_speed = 50, congestion_level = 0, timestamp = ''t1''\<rparr>,
               Elapse 86400]"
  have h: "\<forall>e \<in> set ?evs. \<not> writes_segment ''CT_001'' e" by simp
  from provider_entry_frozen_without_writes [OF h] h show ?thesis by simp
qed

text \<open>
  C6, as stated, fails. With a half-life of 300 s, a reading of level 1/2 is stored and
  601 s pass without a sample: the stored level is still 1/2, not within 1/100 of 1.
\<close>

theorem provider_no_decay_counterexample:
  "(601 :: real) > 2 * 300 \<and>
   \<not> \<bar>congestion_level
        (provider_run []
           [UpdatePoint \<lparr>road_segment_id = ''CT_001'', latitude = 0, longitude = 0,
              flow_speed = 8, congestion_level = 1 / 2,
              timestamp = ''2024-05-01T08:00:00.000Z''\<rparr>,
            Elapse 601] ! 0) - 1\<bar> < 1 / 100"
  by (simp add: provider_run_def updateTrafficPoint_def)

section \<open>Properties of the rendering helpers\<close>

subsection \<open>The binary exponent and the rounding to a double\<close>

lemma powi2_less_cancel: "(2::real) powi a < 2 powi b \<Longrightarrow> a < b"
  using power_int_increasing [of b a "2::real"] by (cases "a < b") auto

lemma expo_lower_ge1:
  assumes "1 \<le> x"
  shows "2 powi (expo x) \<le> x" and "x < 2 powi (expo x + 1)"
proof -
  define n where "n = \<lfloor>x\<rfloor>"
  define j where "j = nat (bitlen n - 1)"
  have n: "0 < n" using assms by (simp add: n_def)
  have b: "1 \<le> bitlen n"
    using n bitlen_eq_zero_iff [of n] bitlen_nonneg [of n] by linarith
  have bj: "bitlen n = int j + 1" "nat (bitlen n) = Suc j"
    using b by (simp_all add: j_def)
  have e: "expo x = int j"
    using assms bj(1) by (simp add: expo_def n_def)
  from bitlen_bounds [OF n]
  have lo: "2 ^ j \<le> n" and hi: "n < 2 ^ Suc j"
    unfolding j_def [symmetric] bj(2) by blast+
  have "real_of_int (2 ^ j) \<le> real_of_int n"
    using lo by (simp only: of_int_le_iff)
  then have "(2::real) ^ j \<le> real_of_int n" by simp
  moreover have "real_of_int n \<le> x" unfolding n_def by linarith
  ultimately show "2 powi (expo x) \<le> x" unfolding e power_int_of_nat by linarith
  have "n + 1 \<le> 2 ^ Suc j" using hi by linarith
  then have "real_of_int (n + 1) \<le> real_of_int (2 ^ Suc j)"
    by (simp only: of_int_le_iff)
  then have "real_of_int n + 1 \<le> 2 ^ Suc j" by simp
  moreover have "x < real_of_int n + 1" unfolding n_def by linarith
  moreover have "int j + 1 = int (Suc j)" by simp
  then have "2 powi (expo x + 1) = (2::real) ^ Suc j"
    unfolding e by (simp only: power_int_of_nat)
  ultimately show "x < 2 powi (expo x + 1)" by linarith
qed

lemma expo_lower_lt1:
  assumes "0 < x" "x < 1"
  shows "2 powi (expo x) \<le> x" and "x < 2 powi (expo x + 1)"
proof -
  define n where "n = \<lceil>1 / x\<rceil> - 1"
  define j where "j = nat (bitlen n - 1)"
  have inv: "1 < 1 / x" using assms by simp
  have n: "0 < n" unfolding n_def using inv by linarith
  have b: "1 \<le> bitlen n"
    using n bitlen_eq_zero_iff [of n] bitlen_nonneg [of n] by linarith
  have bj: "bitlen n = int j + 1" "nat (bitlen n) = Suc j"
    using b by (simp_all add: j_def)
  have e: "expo x = - int (Suc j)"
    using assms bj by (simp add: expo_def n_def)
  from bitlen_bounds [OF n]
  have lo: "2 ^ j \<le> n" and hi: "n < 2 ^ Suc j"
    unfolding j_def [symmetric] bj(2) by blast+
  have nlt: "real_of_int n < 1 / x" unfolding n_def by linarith
  have nge: "1 / x \<le> real_of_int n + 1" unfolding n_def by linarith
  have "n + 1 \<le> 2 ^ Suc j" using hi by linarith
  then have "real_of_int (n + 1) \<le> real_of_int (2 ^ Suc j)"
    by (simp only: of_int_le_iff)
  then have "real_of_int n + 1 \<le> 2 ^ Suc j" by simp
  with nge have "1 / x \<le> 2 ^ Suc j" by linarith
  then have "1 / 2 ^ Suc j \<le> x"
    using assms by (simp add: field_simps)
  moreover have "(2::real) powi (expo x) = 1 / 2 ^ Suc j"
    unfolding e by (simp only: power_int_minus power_int_of_nat inverse_eq_divide)
  ultimately show "2 powi (expo x) \<le> x" by linarith
  have "real_of_int (2 ^ j) \<le> real_of_int n"
    using lo by (simp only: of_int_le_iff)
  then have "(2::real) ^ j \<le> real_of_int n" by simp
  with nlt have "2 ^ j < 1 / x" by linarith
  then have x: "x < 1 / 2 ^ j"
    using assms by (simp add: field_simps)
  have "expo x + 1 = - int j" by (simp add: e)
  then have "(2::real) powi (expo x + 1) = 1 / 2 ^ j"
    by (simp only: power_int_minus power_int_of_nat inverse_eq_divide)
  with x show "x < 2 powi (expo x + 1)" by linarith
qed

lemma expo_bounds:
  assumes "0 < x"
  shows "2 powi (expo x) \<le> x" and "x < 2 powi (expo x + 1)"
  using assms expo_lower_ge1 [of x] expo_lower_lt1 [of x] by (cases "1 \<le> x"; simp)+

lemma expo_less: "0 < x \<Longrightarrow> x < 2 powi b \<Longrightarrow> expo x < b"
  using expo_bounds(1) [of x] powi2_less_cancel [of "expo x" b] by simp

lemma expo_ge: "0 < x \<Longrightarrow> 2 powi a \<le> x \<Longrightarrow> a \<le> expo x"
  using expo_bounds(2) [of x] powi2_less_cancel [of a "expo x + 1"] by simp

lemma ulp_pos: "0 < ulp x"
  by (simp add: ulp_def)

lemma round_even_ge_floor: "\<lfloor>y\<rfloor> \<le> round_even y"
  by (simp add: round_even_def Let_def)

lemma round_even_upper: "real_of_int (round_even y) \<le> y + 1 / 2"
  by (simp add: round_even_def Let_def) linarith

lemma to_double_upper: "0 < x \<Longrightarrow> to_double x \<le> x + ulp x / 2"
proof -
  assume x: "0 < x"
  have "ulp x * real_of_int (round_even (x / ulp x)) \<le> ulp x * (x / ulp x + 1 / 2)"
    using ulp_pos [of x] round_even_upper [of "x / ulp x"] by (simp only: mult_le_cancel_left_pos)
  also have "\<dots> = x + ulp x / 2"
    using ulp_pos [of x] by (simp add: field_simps)
  finally show ?thesis using x by (simp add: to_double_def)
qed

lemma to_double_grid_lower:
  assumes "0 < x" "real_of_int n * ulp x \<le> x"
  shows "real_of_int n * ulp x \<le> to_double x"
proof -
  have "real_of_int n \<le> x / ulp x"
    using assms(2) ulp_pos [of x] by (simp add: field_simps)
  then have "n \<le> \<lfloor>x / ulp x\<rfloor>" by (simp add: le_floor_iff)
  also have "\<dots> \<le> round_even (x / ulp x)" by (rule round_even_ge_floor)
  finally have "real_of_int n \<le> real_of_int (round_even (x / ulp x))" by simp
  then have "ulp x * real_of_int n \<le> ulp x * real_of_int (round_even (x / ulp x))"
    using ulp_pos [of x] by (simp only: mult_le_cancel_left_pos)
  then show ?thesis using assms(1) by (simp add: to_double_def mult.commute)
qed

lemma to_double_nonneg: "0 \<le> x \<Longrightarrow> 0 \<le> to_double x"
  using to_double_grid_lower [of x 0] by (cases "x = 0") (simp_all add: to_double_def)

subsection \<open>The two divisions by 60\<close>

text \<open>
  On a double below \<open>2\<^sup>5\<^sup>3\<close> the rounded quotient by 60 has the same nearest integer as
  the exact quotient, and the rounded quotient of an integer below \<open>2\<^sup>4\<^sup>8\<close> has the same
  floor as the exact one: the rounding error of the division is smaller than the
  distance of the exact quotient, a multiple of \<open>1/60\<close> of a double, from the next point
  where \<^verbatim>\<open>Math.round\<close> or \<^verbatim>\<open>Math.floor\<close> jumps.
\<close>

lemma ulp_inverse_power:
  assumes "0 < x" "x < 2 ^ (53 - c)" "c \<le> 53"
  obtains j where "c \<le> j" "ulp x = 1 / 2 ^ j"
proof -
  have "x < 2 powi int (53 - c)" using assms(2) by (simp only: power_int_of_nat)
  with assms(1) have "expo x < int (53 - c)" by (rule expo_less)
  define e where "e = max (expo x) (- 1022) - 52"
  have e: "e \<le> - int c" using \<open>expo x < int (53 - c)\<close> assms(3) by (simp add: e_def max_def)
  define j where "j = nat (- e)"
  have j: "e = - int j" "c \<le> j" using e by (simp_all add: j_def)
  have "ulp x = 2 powi (- int j)" by (simp only: ulp_def e_def [symmetric] j(1))
  also have "\<dots> = 1 / 2 ^ j"
    by (simp only: power_int_minus power_int_of_nat inverse_eq_divide)
  finally show thesis using that j(2) by blast
qed

lemma ulp_normal: "- 1022 \<le> expo x \<Longrightarrow> ulp x = 2 powi (expo x - 52)"
  by (simp add: ulp_def max_def)

lemma Math_round_js_divide_60:
  assumes d: "to_double s = s" and s0: "0 \<le> s" and s53: "s < 2 ^ 53"
  shows "Math_round (js_divide s 60) = round (s / 60)"
proof (cases "s = 0")
  case True
  then show ?thesis by (simp add: Math_round_def js_divide_def to_double_def round_def)
next
  case False
  define q where "q = s / 60"
  define k where "k = \<lfloor>q + 1 / 2\<rfloor>"
  have s: "0 < s" using False s0 by simp
  have q: "0 < q" "s = 60 * q" using s by (simp_all add: q_def)
  have k0: "0 \<le> k" using q(1) by (simp add: k_def)
  have kq: "real_of_int k \<le> q + 1 / 2" "q + 1 / 2 < real_of_int k + 1"
    unfolding k_def by linarith+
  have "q < 2 ^ (53 - 5)" using s53 by (simp add: q_def)
  with q(1) obtain j where j: "5 \<le> j" "ulp q = 1 / 2 ^ j"
    by (rule ulp_inverse_power [where c = 5]) simp_all
  have ulpq32: "ulp q \<le> 1 / 32"
  proof -
    have "(2::real) ^ 5 \<le> 2 ^ j" using j(1) by (intro power_increasing) simp_all
    then show ?thesis unfolding j(2) by (simp add: field_simps)
  qed
  have lower: "real_of_int k - 1 / 2 \<le> to_double q"
  proof (cases "k = 0")
    case True
    then show ?thesis using to_double_nonneg [of q] q(1) by simp
  next
    case False
    obtain i where i: "j = Suc i" using j(1) by (cases j) simp_all
    have g: "real_of_int ((2 * k - 1) * 2 ^ i) * ulp q = real_of_int k - 1 / 2"
      unfolding j(2) i by (simp add: field_simps)
    have "real_of_int k - 1 / 2 \<le> q" using kq(1) by simp
    then have "real_of_int ((2 * k - 1) * 2 ^ i) * ulp q \<le> q" by (simp only: g)
    with q(1) have "real_of_int ((2 * k - 1) * 2 ^ i) * ulp q \<le> to_double q"
      by (rule to_double_grid_lower)
    then show ?thesis by (simp only: g)
  qed
  have upper: "to_double q < real_of_int k + 1 / 2"
  proof (cases "q < 1 / 4")
    case True
    have "to_double q \<le> q + ulp q / 2" using q(1) by (rule to_double_upper)
    then show ?thesis using True ulpq32 k0 by simp
  next
    case False
    have "(2::real) powi (- 2) = 1 / 4" by (simp add: power_int_minus)
    then have "2 powi (- 2) \<le> q" using False by simp
    with q(1) have eq: "- 2 \<le> expo q" by (rule expo_ge)
    have "(2::real) powi (expo q + 5) = 32 * 2 powi (expo q)"
      by (simp add: power_int_add)
    also have "\<dots> \<le> 32 * q" using expo_bounds(1) [OF q(1)] by simp
    also have "\<dots> \<le> s" using q by simp
    finally have es: "expo q + 5 \<le> expo s" using s by (intro expo_ge)
    have "32 * ulp q = 2 powi (expo q + 5 - 52)"
      using eq by (simp add: ulp_normal power_int_add power_int_diff)
    also have "\<dots> \<le> 2 powi (expo s - 52)"
      using es by (intro power_int_increasing) simp_all
    also have "\<dots> = ulp s" using es eq by (simp add: ulp_normal)
    finally have ratio: "32 * ulp q \<le> ulp s" .
    have "s < 2 ^ (53 - 0)" using s53 by simp
    with s obtain j' where j': "ulp s = 1 / 2 ^ j'"
      by (rule ulp_inverse_power [where c = 0]) simp_all
    define m where "m = round_even (s / ulp s)"
    have sm: "s = ulp s * real_of_int m"
      using d s by (simp add: to_double_def m_def)
    define S where "S = (60 * k + 30) * 2 ^ j'"
    have SS: "ulp s * real_of_int S = 60 * real_of_int k + 30"
      unfolding j' S_def by simp
    have "s < 60 * real_of_int k + 30" using kq(2) q(2) by simp
    then have "ulp s * real_of_int m < ulp s * real_of_int S"
      using sm SS by simp
    then have "real_of_int m < real_of_int S"
      using ulp_pos [of s] by (simp only: mult_less_cancel_left_pos)
    then have "m + 1 \<le> S" by simp
    then have "real_of_int (m + 1) \<le> real_of_int S" by (simp only: of_int_le_iff)
    then have "ulp s * real_of_int (m + 1) \<le> ulp s * real_of_int S"
      using ulp_pos [of s] by (simp only: mult_le_cancel_left_pos)
    then have "s + ulp s \<le> 60 * real_of_int k + 30"
      using sm SS by (simp add: algebra_simps)
    then have gap: "q + ulp s / 60 \<le> real_of_int k + 1 / 2"
      using q(2) by simp
    have "to_double q \<le> q + ulp q / 2" using q(1) by (rule to_double_upper)
    also have "\<dots> < q + ulp s / 60" using ratio ulp_pos [of q] by simp
    finally show ?thesis using gap by simp
  qed
  have "\<lfloor>to_double q + 1 / 2\<rfloor> = k"
    using lower upper by (intro floor_unique) simp_all
  then show ?thesis
    by (simp add: Math_round_def js_divide_def q_def [symmetric] round_def k_def)
qed

lemma Math_floor_js_divide_60:
  assumes m0: "0 \<le> m" and m48: "m < 2 ^ 48"
  shows "Math_floor (js_divide (real_of_int m) 60) = m div 60"
proof (cases "m = 0")
  case True
  then show ?thesis by (simp add: Math_floor_def js_divide_def to_double_def)
next
  case False
  define x where "x = real_of_int m / 60"
  define h where "h = m div 60"
  define r where "r = m mod 60"
  have m: "m = 60 * h + r" "0 \<le> r" "r < 60" by (simp_all add: h_def r_def)
  have x: "0 < x" using False m0 by (simp add: x_def)
  have xh: "x = real_of_int h + real_of_int r / 60" by (simp add: x_def m(1))
  have "real_of_int m < real_of_int (2 ^ 48)" using m48 by (simp only: of_int_less_iff)
  then have "x < 2 ^ (53 - 5)" by (simp add: x_def)
  with x obtain j where j: "5 \<le> j" "ulp x = 1 / 2 ^ j"
    by (rule ulp_inverse_power [where c = 5]) simp_all
  have ulp32: "ulp x \<le> 1 / 32"
  proof -
    have "(2::real) ^ 5 \<le> 2 ^ j" using j(1) by (intro power_increasing) simp_all
    then show ?thesis unfolding j(2) by (simp add: field_simps)
  qed
  have g: "real_of_int (h * 2 ^ j) * ulp x = real_of_int h" unfolding j(2) by simp
  have "real_of_int h \<le> x" using m(2) by (simp add: xh)
  then have "real_of_int (h * 2 ^ j) * ulp x \<le> x" by (simp only: g)
  with x have "real_of_int (h * 2 ^ j) * ulp x \<le> to_double x"
    by (rule to_double_grid_lower)
  then have lower: "real_of_int h \<le> to_double x" by (simp only: g)
  have "real_of_int r \<le> 59" using m(3) by simp
  then have "x \<le> real_of_int h + 59 / 60" by (simp add: xh)
  moreover have "to_double x \<le> x + ulp x / 2" using x by (rule to_double_upper)
  ultimately have upper: "to_double x < real_of_int h + 1" using ulp32 by simp
  have "\<lfloor>to_double x\<rfloor> = h" using lower upper by (intro floor_unique) simp_all
  then show ?thesis by (simp add: Math_floor_def js_divide_def x_def [symmetric] h_def)
qed

lemma number_string_small: "0 \<le> i \<Longrightarrow> i < 2 ^ 53 \<Longrightarrow> number_string i = show_digits i"
  by (simp add: number_string_def number_string_nonneg_def)

subsection \<open>The rendering of a duration\<close>

text \<open>
  C10. For every double \<open>seconds\<close> with \<open>0 \<le> seconds < 2\<^sup>5\<^sup>3\<close> and \<open>m = round (seconds / 60)\<close>
  (the exact quotient, a half rounded upwards), \<^verbatim>\<open>formatTime\<close> renders \<open>m min\<close> when
  \<open>m < 60\<close>, and otherwise \<open>h\<close>h \<open>r\<close>m with \<open>h = m div 60\<close> and \<open>r = m mod 60\<close>, so the minutes
  shown are below 60.
\<close>

theorem formatTime_rendering:
  assumes "to_double seconds = seconds" and "0 \<le> seconds" and "seconds < 2 ^ 53"
  shows "let m = round (seconds / 60) in
     (m < 60 \<longrightarrow> formatTime seconds = show_digits m @ '' min'') \<and>
     (60 \<le> m \<longrightarrow>
        formatTime seconds = show_digits (m div 60) @ ''h '' @ show_digits (m mod 60) @ ''m'' \<and>
        0 \<le> m mod 60 \<and> m mod 60 < 60)"
proof -
  define m where "m = round (seconds / 60)"
  have mr: "Math_round (js_divide seconds 60) = m"
    unfolding m_def using assms by (rule Math_round_js_divide_60)
  have m0: "0 \<le> m" using assms(2) by (simp add: m_def round_def)
  have "real_of_int m \<le> seconds / 60 + 1 / 2" unfolding m_def round_def by linarith
  also have "\<dots> < 2 ^ 48" using assms(3) by simp
  finally have "real_of_int m < real_of_int (2 ^ 48)" by simp
  then have m48: "m < 2 ^ 48" by (simp only: of_int_less_iff)
  then have m53: "m < 2 ^ 53" by simp
  have fl: "Math_floor (js_divide (real_of_int m) 60) = m div 60"
    using m0 m48 by (rule Math_floor_js_divide_60)
  have h: "0 \<le> m div 60" "m div 60 < 2 ^ 53" using m0 m53 by simp_all
  have r: "0 \<le> m mod 60" "m mod 60 < 2 ^ 53" by simp_all
  have "m < 60 \<Longrightarrow> formatTime seconds = show_digits m @ '' min''"
    using m0 m53 by (simp add: formatTime_def mr number_string_small)
  moreover have "60 \<le> m \<Longrightarrow>
      formatTime seconds = show_digits (m div 60) @ ''h '' @ show_digits (m mod 60) @ ''m''"
    using m0 by (simp add: formatTime_def mr fl js_rem_def number_string_small [OF h]
        number_string_small [OF r])
  ultimately show ?thesis unfolding m_def [symmetric] Let_def by simp
qed

theorem formatTime_rendering_witness:
  "to_double 5400 = 5400 \<and> (0 :: real) \<le> 5400 \<and> (5400 :: real) < 2 ^ 53 \<and>
   formatTime 5400 = ''1h 30m'' \<and>
   to_double 1560 = 1560 \<and> (0 :: real) \<le> 1560 \<and> (1560 :: real) < 2 ^ 53 \<and>
   formatTime 1560 = ''26 min''"
proof -
  have a: "to_double 5400 = 5400" by code_simp
  have b: "to_double 1560 = 1560" by code_simp
  have c: "show_digits 1 = ''1''" "show_digits 30 = ''30''" "show_digits 26 = ''26''"
    by code_simp+
  show ?thesis
    using formatTime_rendering [OF a] formatTime_rendering [OF b]
    by (simp add: a b c round_def)
qed

text \<open>
  C10, counterexample: without the bound the rendering can differ from the exact
  arithmetic. \<open>60 * 2\<^sup>4\<^sup>9 + 28\<close> is a double; the exact quotient by 60 is
  \<open>2\<^sup>4\<^sup>9 + 28/60\<close>, which rounds to \<open>2\<^sup>4\<^sup>9\<close>, so the claimed rendering is
  \<open>9382499223688h 32m\<close>. The doubles around \<open>2\<^sup>4\<^sup>9\<close> are \<open>1/8\<close> apart, the division
  returns \<open>2\<^sup>4\<^sup>9 + 1/2\<close>, \<^verbatim>\<open>Math.round\<close> gives \<open>2\<^sup>4\<^sup>9 + 1\<close>, and \<^verbatim>\<open>formatTime\<close> renders
  \<open>9382499223688h 33m\<close>.
\<close>

theorem formatTime_rendering_counterexample:
  "to_double (60 * 2 ^ 49 + 28) = 60 * 2 ^ 49 + 28 \<and>
   (0 :: real) \<le> 60 * 2 ^ 49 + 28 \<and>
   round ((60 * 2 ^ 49 + 28 :: real) / 60) = 2 ^ 49 \<and>
   (2 ^ 49 :: int) div 60 = 9382499223688 \<and> (2 ^ 49 :: int) mod 60 = 32 \<and>
   js_divide (60 * 2 ^ 49 + 28) 60 = 2 ^ 49 + 1 / 2 \<and>
   formatTime (60 * 2 ^ 49 + 28) = ''9382499223688h 33m'' \<and>
   formatTime (60 * 2 ^ 49 + 28) \<noteq>
     show_digits (2 ^ 49 div 60) @ ''h '' @ show_digits (2 ^ 49 mod 60) @ ''m''"
  by code_simp

section \<open>Correctness of the route search\<close>



lemma better_fst: "better a b \<Longrightarrow> fst a \<le> fst b"
  by (auto simp: better_def)

lemma not_better_fst: "\<not> better a b \<Longrightarrow> fst b \<le> fst a"
  by (auto simp: better_def)

lemma pick_min_None: "(pick_min Q L = None) = (\<forall>q \<in> set Q. L q = None)"
  by (induction Q) (auto split: option.splits)

lemma pick_min_Some:
  "pick_min Q L = Some u \<Longrightarrow>
   u \<in> set Q \<and> (\<exists>lu. L u = Some lu \<and> (\<forall>q \<in> set Q. \<forall>lq. L q = Some lq \<longrightarrow> fst lu \<le> fst lq))"
proof (induction Q arbitrary: u)
  case Nil
  then show ?case by simp
next
  case (Cons q qs)
  show ?case
  proof (cases "L q")
    case None
    with Cons.prems have "pick_min qs L = Some u" by simp
    from Cons.IH [OF this] None show ?thesis by auto
  next
    case (Some lq)
    note lq = this
    show ?thesis
    proof (cases "pick_min qs L")
      case None
      with lq Cons.prems have "u = q" by simp
      moreover from None have "\<forall>x \<in> set qs. L x = None" by (simp add: pick_min_None)
      ultimately show ?thesis using lq by auto
    next
      case (Some r)
      from Cons.IH [OF Some] obtain lr where
        r: "r \<in> set qs" "L r = Some lr" "\<forall>x \<in> set qs. \<forall>lx. L x = Some lx \<longrightarrow> fst lr \<le> fst lx"
        by blast
      show ?thesis
      proof (cases "better lr lq")
        case True
        with lq Some r Cons.prems have "u = r" by simp
        moreover from True have "fst lr \<le> fst lq" by (rule better_fst)
        ultimately show ?thesis using r lq by auto
      next
        case False
        with lq Some r Cons.prems have "u = q" by simp
        moreover from False have "fst lq \<le> fst lr" by (rule not_better_fst)
        ultimately show ?thesis using r lq by fastforce
      qed
    qed
  qed
qed

lemma relax_outside: "v \<notin> set Q \<Longrightarrow> relax cost Q lu e L v = L v"
  by (auto simp: relax_def Let_def split: option.splits)

lemma relax_mono:
  "L v = Some l \<Longrightarrow> \<exists>l'. relax cost Q lu e L v = Some l' \<and> fst l' \<le> fst l"
  by (cases l) (auto simp: relax_def Let_def dest: better_fst split: option.splits)

lemma relax_origin:
  "relax cost Q lu e L v = Some l' \<Longrightarrow>
   L v = Some l' \<or> (edge_dest e = v \<and> l' = (fst lu + cost e, snd lu @ [e]))"
  by (auto simp: relax_def Let_def split: option.splits if_splits)

lemma relax_done:
  "edge_dest e \<in> set Q \<Longrightarrow>
   \<exists>l'. relax cost Q lu e L (edge_dest e) = Some l' \<and> fst l' \<le> fst lu + cost e"
  by (auto simp: relax_def Let_def dest: not_better_fst split: option.splits)

lemma relax_edges_outside: "v \<notin> set Q \<Longrightarrow> relax_edges cost Q lu es L v = L v"
  by (induction es arbitrary: L) (simp_all add: relax_outside)

lemma relax_edges_mono:
  "L v = Some l \<Longrightarrow> \<exists>l'. relax_edges cost Q lu es L v = Some l' \<and> fst l' \<le> fst l"
proof (induction es arbitrary: L l)
  case Nil
  then show ?case by simp
next
  case (Cons e es)
  from relax_mono [where L = L and v = v, OF Cons.prems] obtain l1 where
    l1: "relax cost Q lu e L v = Some l1" "fst l1 \<le> fst l" by blast
  from Cons.IH [where L = "relax cost Q lu e L", OF l1(1)] obtain l' where
    "relax_edges cost Q lu es (relax cost Q lu e L) v = Some l'" "fst l' \<le> fst l1" by blast
  with l1 show ?case by auto
qed

lemma relax_edges_origin:
  "relax_edges cost Q lu es L v = Some l' \<Longrightarrow>
   L v = Some l' \<or> (\<exists>e \<in> set es. edge_dest e = v \<and> l' = (fst lu + cost e, snd lu @ [e]))"
proof (induction es arbitrary: L)
  case Nil
  then show ?case by simp
next
  case (Cons e es)
  from Cons.IH [of "relax cost Q lu e L"] Cons.prems
  have "relax cost Q lu e L v = Some l' \<or>
        (\<exists>e \<in> set es. edge_dest e = v \<and> l' = (fst lu + cost e, snd lu @ [e]))"
    by simp
  then show ?case
  proof
    assume "relax cost Q lu e L v = Some l'"
    from relax_origin [OF this] show ?thesis by auto
  next
    assume "\<exists>e \<in> set es. edge_dest e = v \<and> l' = (fst lu + cost e, snd lu @ [e])"
    then show ?thesis by auto
  qed
qed

lemma relax_edges_done:
  "e \<in> set es \<Longrightarrow> edge_dest e \<in> set Q \<Longrightarrow>
   \<exists>l'. relax_edges cost Q lu es L (edge_dest e) = Some l' \<and> fst l' \<le> fst lu + cost e"
proof (induction es arbitrary: L)
  case Nil
  then show ?case by simp
next
  case (Cons x es)
  show ?case
  proof (cases "e = x")
    case True
    from relax_done [OF Cons.prems(2)] obtain l1 where
      l1: "relax cost Q lu e L (edge_dest e) = Some l1" "fst l1 \<le> fst lu + cost e" by blast
    from relax_edges_mono [where L = "relax cost Q lu e L" and v = "edge_dest e", OF l1(1)]
    obtain l' where
      "relax_edges cost Q lu es (relax cost Q lu e L) (edge_dest e) = Some l'" "fst l' \<le> fst l1"
      by blast
    with l1 True show ?thesis by auto
  next
    case False
    with Cons.prems have "e \<in> set es" by simp
    from Cons.IH [OF this Cons.prems(2)] show ?thesis by simp
  qed
qed

lemma walk_append: "walk g u (p @ q) v = (\<exists>w. walk g u p w \<and> walk g w q v)"
  by (induction p arbitrary: u) auto

lemma path_cost_Nil: "path_cost cost [] = 0"
  by (simp add: path_cost_def)

lemma path_cost_Cons: "path_cost cost (e # p) = cost e + path_cost cost p"
  by (simp add: path_cost_def)

lemma path_cost_append: "path_cost cost (p @ q) = path_cost cost p + path_cost cost q"
  by (simp add: path_cost_def)

lemma path_cost_nonneg:
  "\<forall>e \<in> set p. 0 \<le> cost e \<Longrightarrow> 0 \<le> path_cost cost p"
  by (induction p) (simp_all add: path_cost_def)

lemma walk_edges: "walk g u p v \<Longrightarrow> set p \<subseteq> set (edges g)"
  by (induction p arbitrary: u) auto

lemma wf_graphD:
  "wf_graph g \<Longrightarrow> e \<in> set (edges g) \<Longrightarrow>
   edge_source e \<in> set (node_ids g) \<and> edge_dest e \<in> set (node_ids g)"
  by (simp add: wf_graph_def list_all_iff)

lemma walk_end_node:
  "wf_graph g \<Longrightarrow> walk g u p v \<Longrightarrow> u \<in> set (node_ids g) \<Longrightarrow> v \<in> set (node_ids g)"
  by (induction p arbitrary: u) (auto dest: wf_graphD)



lemma search_inv_init:
  "search_inv cost g s (node_ids g) (Map.empty(s \<mapsto> (0, [])))"
  by (auto simp: search_inv_def settled_def path_cost_Nil)

lemma frontier_exists:
  assumes wf: "wf_graph g" and nonneg: "\<forall>e \<in> set (edges g). 0 \<le> cost e"
    and inv: "search_inv cost g s Q L"
  shows "walk g x p z \<Longrightarrow> settled g Q x \<Longrightarrow> L x = Some lx \<Longrightarrow> z \<in> set Q \<Longrightarrow>
         \<exists>y ly. y \<in> set Q \<and> L y = Some ly \<and> fst ly \<le> fst lx + path_cost cost p"
proof (induction p arbitrary: x lx)
  case Nil
  then show ?case by (simp add: settled_def)
next
  case (Cons e p)
  from Cons.prems(1) have e: "e \<in> set (edges g)" "edge_source e = x"
    and rest: "walk g (edge_dest e) p z" by simp_all
  from inv Cons.prems(2,3) e obtain l' where
    l': "L (edge_dest e) = Some l'" "fst l' \<le> fst lx + cost e"
    unfolding search_inv_def by blast
  from rest nonneg have pos: "0 \<le> path_cost cost p"
    by (intro path_cost_nonneg) (use walk_edges in blast)
  show ?case
  proof (cases "edge_dest e \<in> set Q")
    case True
    with l' pos show ?thesis
      by (intro exI [of _ "edge_dest e"] exI [of _ l']) (simp add: path_cost_Cons)
  next
    case False
    with wf e have "settled g Q (edge_dest e)"
      by (simp add: settled_def wf_graphD)
    from Cons.IH [OF rest this l'(1) Cons.prems(4)] obtain y ly where
      "y \<in> set Q" "L y = Some ly" "fst ly \<le> fst l' + path_cost cost p" by blast
    with l' show ?thesis
      by (intro exI [of _ y] exI [of _ ly]) (simp add: path_cost_Cons)
  qed
qed

lemma pick_optimal:
  assumes wf: "wf_graph g" and nonneg: "\<forall>e \<in> set (edges g). 0 \<le> cost e"
    and inv: "search_inv cost g s Q L" and s: "s \<in> set (node_ids g)"
    and pick: "pick_min Q L = Some u" and lu: "L u = Some lu"
    and q: "walk g s q u"
  shows "fst lu \<le> path_cost cost q"
proof -
  from pick_min_Some [OF pick] lu have uQ: "u \<in> set Q"
    and least: "\<forall>y \<in> set Q. \<forall>ly. L y = Some ly \<longrightarrow> fst lu \<le> fst ly" by auto
  from inv obtain ls where ls: "L s = Some ls" "fst ls \<le> 0"
    unfolding search_inv_def by blast
  from q nonneg have pos: "0 \<le> path_cost cost q"
    by (intro path_cost_nonneg) (use walk_edges in blast)
  show ?thesis
  proof (cases "s \<in> set Q")
    case True
    with least ls have "fst lu \<le> fst ls" by blast
    with ls pos show ?thesis by linarith
  next
    case False
    with s have "settled g Q s" by (simp add: settled_def)
    from frontier_exists [OF wf nonneg inv q this ls(1) uQ] obtain y ly where
      y: "y \<in> set Q" "L y = Some ly" "fst ly \<le> fst ls + path_cost cost q" by blast
    with least have "fst lu \<le> fst ly" by blast
    with y ls show ?thesis by linarith
  qed
qed

lemma none_unreachable:
  assumes wf: "wf_graph g" and nonneg: "\<forall>e \<in> set (edges g). 0 \<le> cost e"
    and inv: "search_inv cost g s Q L" and s: "s \<in> set (node_ids g)"
    and pick: "pick_min Q L = None" and t: "t \<in> set Q"
  shows "\<not> walk g s q t"
proof
  assume q: "walk g s q t"
  from pick have none: "\<forall>y \<in> set Q. L y = None" by (simp add: pick_min_None)
  from inv obtain ls where ls: "L s = Some ls"
    unfolding search_inv_def by blast
  with none have "s \<notin> set Q" by auto
  with s have "settled g Q s" by (simp add: settled_def)
  from frontier_exists [OF wf nonneg inv q this ls t] none show False by auto
qed



lemma Neighbors_iff: "e \<in> set (Neighbors g u) = (e \<in> set (edges g) \<and> edge_source e = u)"
  by (auto simp: Neighbors_def)

lemma step_inv:
  assumes wf: "wf_graph g" and nonneg: "\<forall>e \<in> set (edges g). 0 \<le> cost e"
    and inv: "search_inv cost g s Q L" and pick: "pick_min Q L = Some u"
  shows "search_inv cost g s (removeAll u Q) (settle cost g (removeAll u Q) u L)"
proof -
  let ?Q = "removeAll u Q"
  from pick_min_Some [OF pick] obtain lu where uQ: "u \<in> set Q" and lu: "L u = Some lu"
    and least: "\<forall>y \<in> set Q. \<forall>ly. L y = Some ly \<longrightarrow> fst lu \<le> fst ly" by blast
  let ?L = "relax_edges cost ?Q lu (Neighbors g u) L"
  have settle_eq: "settle cost g ?Q u L = ?L" using lu by (simp add: settle_def)
  from inv have QV: "set Q \<subseteq> set (node_ids g)"
    and J1: "\<And>v l. L v = Some l \<Longrightarrow> walk g s (snd l) v \<and> path_cost cost (snd l) = fst l"
    and J2: "\<And>x lx e. settled g Q x \<Longrightarrow> L x = Some lx \<Longrightarrow> e \<in> set (edges g) \<Longrightarrow>
               edge_source e = x \<Longrightarrow> \<exists>l'. L (edge_dest e) = Some l' \<and> fst l' \<le> fst lx + cost e"
    and J3: "\<And>x. settled g Q x \<Longrightarrow> L x \<noteq> None"
    and J4: "\<And>x y lx ly. settled g Q x \<Longrightarrow> L x = Some lx \<Longrightarrow> y \<in> set Q \<Longrightarrow> L y = Some ly \<Longrightarrow>
               fst lx \<le> fst ly"
    and J5: "\<exists>ls. L s = Some ls \<and> fst ls \<le> 0"
    unfolding search_inv_def by blast+
  have F1: "?L v = L v" if "v \<notin> set ?Q" for v
    using that by (rule relax_edges_outside)
  have F2: "\<exists>l'. ?L v = Some l' \<and> fst l' \<le> fst l" if "L v = Some l" for v l
    using that by (rule relax_edges_mono)
  have F3: "L v = Some l' \<or>
      (\<exists>e \<in> set (edges g). edge_source e = u \<and> edge_dest e = v \<and>
         l' = (fst lu + cost e, snd lu @ [e]))" if "?L v = Some l'" for v l'
    using relax_edges_origin [OF that] by (auto simp: Neighbors_iff)
  have F4: "\<exists>l'. ?L (edge_dest e) = Some l' \<and> fst l' \<le> fst lu + cost e"
    if "e \<in> set (edges g)" "edge_source e = u" "edge_dest e \<in> set ?Q" for e
    using that by (intro relax_edges_done) (simp_all add: Neighbors_iff)
  have settled_step: "settled g ?Q x = (settled g Q x \<or> x = u)" for x
    using uQ QV by (auto simp: settled_def)
  have Lu: "?L u = Some lu" using F1 [of u] lu by simp
  have K0: "set ?Q \<subseteq> set (node_ids g)" using QV by auto
  have K1: "walk g s (snd l) v \<and> path_cost cost (snd l) = fst l" if "?L v = Some l" for v l
  proof -
    from F3 [OF that] show ?thesis
    proof
      assume "L v = Some l"
      then show ?thesis by (rule J1)
    next
      assume "\<exists>e \<in> set (edges g). edge_source e = u \<and> edge_dest e = v \<and>
         l = (fst lu + cost e, snd lu @ [e])"
      then obtain e where e: "e \<in> set (edges g)" "edge_source e = u" "edge_dest e = v"
        "l = (fst lu + cost e, snd lu @ [e])" by blast
      from J1 [OF lu] have "walk g s (snd lu) u" "path_cost cost (snd lu) = fst lu" by simp_all
      with e show ?thesis
        by (auto simp: walk_append path_cost_append path_cost_Cons path_cost_Nil)
    qed
  qed
  have K2: "\<exists>l'. ?L (edge_dest e) = Some l' \<and> fst l' \<le> fst lx + cost e"
    if x: "settled g ?Q x" and lx: "?L x = Some lx" and e: "e \<in> set (edges g)" "edge_source e = x"
    for x lx e
  proof -
    from x have notQ: "x \<notin> set ?Q" by (simp add: settled_def)
    with lx F1 have Lx: "L x = Some lx" by simp
    from x settled_step consider "settled g Q x" | "x = u" by blast
    then show ?thesis
    proof cases
      case 1
      from J2 [OF 1 Lx e] obtain l1 where "L (edge_dest e) = Some l1" "fst l1 \<le> fst lx + cost e"
        by blast
      with F2 [of "edge_dest e" l1] show ?thesis by fastforce
    next
      case 2
      with Lx lu have lx_lu: "lx = lu" by simp
      from nonneg e have ce: "0 \<le> cost e" by blast
      show ?thesis
      proof (cases "edge_dest e \<in> set ?Q")
        case True
        with F4 [of e] e 2 lx_lu show ?thesis by simp
      next
        case False
        from wf e have "edge_dest e \<in> set (node_ids g)" by (simp add: wf_graphD)
        with False have "settled g ?Q (edge_dest e)" by (simp add: settled_def)
        with settled_step consider "settled g Q (edge_dest e)" | "edge_dest e = u" by blast
        then show ?thesis
        proof cases
          case 1
          with J3 obtain lv where lv: "L (edge_dest e) = Some lv" by fastforce
          from J4 [OF 1 lv uQ lu] have "fst lv \<le> fst lu" .
          with lv F1 [OF False] lx_lu ce show ?thesis by simp
        next
          case 2
          with Lu lx_lu ce show ?thesis by simp
        qed
      qed
    qed
  qed
  have K3: "?L x \<noteq> None" if "settled g ?Q x" for x
  proof -
    from that have "x \<notin> set ?Q" by (simp add: settled_def)
    then have "?L x = L x" by (rule F1)
    moreover from that settled_step have "settled g Q x \<or> x = u" by blast
    ultimately show ?thesis using J3 lu by auto
  qed
  have K4: "fst lx \<le> fst ly"
    if x: "settled g ?Q x" and lx: "?L x = Some lx" and y: "y \<in> set ?Q" and ly: "?L y = Some ly"
    for x y lx ly
  proof -
    from x have "x \<notin> set ?Q" by (simp add: settled_def)
    with lx F1 have Lx: "L x = Some lx" by simp
    from y have yQ: "y \<in> set Q" by simp
    have xu: "fst lx \<le> fst lu"
    proof -
      from x settled_step consider "settled g Q x" | "x = u" by blast
      then show ?thesis
      proof cases
        case 1
        from J4 [OF 1 Lx uQ lu] show ?thesis .
      next
        case 2
        with Lx lu show ?thesis by simp
      qed
    qed
    from F3 [OF ly] show ?thesis
    proof
      assume old: "L y = Some ly"
      from x settled_step consider "settled g Q x" | "x = u" by blast
      then show ?thesis
      proof cases
        case 1
        from J4 [OF 1 Lx yQ old] show ?thesis .
      next
        case 2
        with Lx lu have "lx = lu" by simp
        moreover from least yQ old have "fst lu \<le> fst ly" by blast
        ultimately show ?thesis by simp
      qed
    next
      assume "\<exists>e \<in> set (edges g). edge_source e = u \<and> edge_dest e = y \<and>
         ly = (fst lu + cost e, snd lu @ [e])"
      then obtain e where "e \<in> set (edges g)" "ly = (fst lu + cost e, snd lu @ [e])" by blast
      with nonneg have "fst lu \<le> fst ly" by simp
      with xu show ?thesis by linarith
    qed
  qed
  have K5: "\<exists>ls. ?L s = Some ls \<and> fst ls \<le> 0"
  proof -
    from J5 obtain ls where "L s = Some ls" "fst ls \<le> 0" by blast
    with F2 [of s ls] show ?thesis by fastforce
  qed
  show ?thesis
    unfolding search_inv_def settle_eq
    using K0 K1 K2 K3 K4 K5 by blast
qed



lemma search_sound_optimal:
  assumes wf: "wf_graph g" and nonneg: "\<forall>e \<in> set (edges g). 0 \<le> cost e"
    and s: "s \<in> set (node_ids g)"
  shows "search_inv cost g s Q L \<Longrightarrow> search b cost g t Q L = Inr l \<Longrightarrow>
         walk g s (snd l) t \<and> path_cost cost (snd l) = fst l \<and>
         (\<forall>q. walk g s q t \<longrightarrow> fst l \<le> path_cost cost q)"
proof (induction b arbitrary: Q L)
  case 0
  from "0.prems"(2) obtain u where pick: "pick_min Q L = Some u" and ut: "u = t" and lu: "L u = Some l"
    by (subst (asm) search.simps) (auto split: option.splits if_splits)
  from "0.prems"(1) lu ut have "walk g s (snd l) t \<and> path_cost cost (snd l) = fst l"
    unfolding search_inv_def by blast
  moreover have "fst l \<le> path_cost cost q" if "walk g s q t" for q
    using pick_optimal [OF wf nonneg "0.prems"(1) s pick lu] that ut by simp
  ultimately show ?case by blast
next
  case (Suc b)
  from Suc.prems(2) obtain u where pick: "pick_min Q L = Some u"
    by (subst (asm) search.simps) (auto split: option.splits)
  show ?case
  proof (cases "u = t")
    case True
    with Suc.prems(2) pick have lu: "L u = Some l"
      by (subst (asm) search.simps) (auto split: option.splits)
    from Suc.prems(1) lu True have "walk g s (snd l) t \<and> path_cost cost (snd l) = fst l"
      unfolding search_inv_def by blast
    moreover have "fst l \<le> path_cost cost q" if "walk g s q t" for q
      using pick_optimal [OF wf nonneg Suc.prems(1) s pick lu] that True by simp
    ultimately show ?thesis by blast
  next
    case False
    with Suc.prems(2) pick
    have "search b cost g t (removeAll u Q) (settle cost g (removeAll u Q) u L) = Inr l"
      by (subst (asm) search.simps) simp
    with Suc.IH [OF step_inv [OF wf nonneg Suc.prems(1) pick]] show ?thesis by blast
  qed
qed

lemma search_complete:
  assumes wf: "wf_graph g" and nonneg: "\<forall>e \<in> set (edges g). 0 \<le> cost e"
    and s: "s \<in> set (node_ids g)"
  shows "search_inv cost g s Q L \<Longrightarrow> t \<in> set Q \<Longrightarrow>
         search b cost g t Q L = Inl NoRouteFound \<Longrightarrow> \<not> walk g s q t"
proof (induction b arbitrary: Q L)
  case 0
  show ?case
  proof (cases "pick_min Q L")
    case None
    from none_unreachable [OF wf nonneg "0.prems"(1) s None "0.prems"(2)] show ?thesis .
  next
    case (Some u)
    from pick_min_Some [OF Some] obtain lu where "L u = Some lu" by blast
    with "0.prems"(3) Some show ?thesis
      by (subst (asm) search.simps) (auto split: if_splits)
  qed
next
  case (Suc b)
  show ?case
  proof (cases "pick_min Q L")
    case None
    from none_unreachable [OF wf nonneg Suc.prems(1) s None Suc.prems(2)] show ?thesis .
  next
    case (Some u)
    from pick_min_Some [OF Some] obtain lu where lu: "L u = Some lu" by blast
    show ?thesis
    proof (cases "u = t")
      case True
      with Suc.prems(3) Some lu show ?thesis
        by (subst (asm) search.simps) simp
    next
      case False
      with Suc.prems(3) Some
      have "search b cost g t (removeAll u Q) (settle cost g (removeAll u Q) u L) = Inl NoRouteFound"
        by (subst (asm) search.simps) simp
      moreover from False Suc.prems(2) have "t \<in> set (removeAll u Q)" by simp
      ultimately show ?thesis
        using Suc.IH [OF step_inv [OF wf nonneg Suc.prems(1) Some]] by blast
    qed
  qed
qed

lemma search_within_budget:
  "length Q \<le> b \<Longrightarrow> search b cost g t Q L \<noteq> Inl RouteSearchTimeout"
proof (induction b arbitrary: Q L)
  case 0
  then show ?case by (subst search.simps) simp
next
  case (Suc b)
  show ?case
  proof (cases "pick_min Q L")
    case None
    then show ?thesis by (subst search.simps) simp
  next
    case (Some u)
    from pick_min_Some [OF Some] have "u \<in> set Q" by blast
    then have "length (removeAll u Q) < length Q" by (rule length_removeAll_less)
    with Suc.prems have "length (removeAll u Q) \<le> b" by simp
    from Suc.IH [OF this] Some show ?thesis
      by (subst search.simps) (simp split: option.splits)
  qed
qed

lemma search_errors: "search b cost g t Q L \<noteq> Inl UnresolvableLocation"
proof (induction b arbitrary: Q L)
  case 0
  show ?case by (subst search.simps) (simp split: option.splits)
next
  case (Suc b)
  then show ?case by (subst search.simps) (simp split: option.splits)
qed

lemma clamp_mono: "w \<le> w' \<Longrightarrow> clamp w lo hi \<le> clamp w' lo hi"
  unfolding clamp_def by linarith

lemma clamp_floor: "lo \<le> clamp w lo hi"
  unfolding clamp_def by linarith

lemma edge_cost_nonneg: "0 \<le> free_flow_cost e \<Longrightarrow> 0 \<le> edge_cost maxMult snap e"
  using clamp_floor [of 1 "snap (edge_id e)" maxMult]
  by (simp add: edge_cost_def effective_cost_spec_def)

lemma edge_cost_mono:
  "0 \<le> free_flow_cost e \<Longrightarrow> snap (edge_id e) \<le> snap' (edge_id e) \<Longrightarrow>
   edge_cost maxMult snap e \<le> edge_cost maxMult snap' e"
  by (simp add: edge_cost_def effective_cost_spec_def clamp_mono mult_left_mono)

lemma path_cost_mono:
  "\<forall>e \<in> set p. cost e \<le> cost' e \<Longrightarrow> path_cost cost p \<le> path_cost cost' p"
  by (induction p) (auto simp: path_cost_Nil path_cost_Cons intro: add_mono)

lemma route_search_origin:
  assumes "route_search budget cost g s t = Inr r"
  shows "s \<in> set (node_ids g)"
proof -
  let ?L0 = "Map.empty(s \<mapsto> (0 :: real, [] :: Edge list))"
  from assms obtain u where pick: "pick_min (node_ids g) ?L0 = Some u"
    unfolding route_search_def
    by (subst (asm) search.simps) (auto split: option.splits)
  from pick_min_Some [OF pick] obtain lu where "u \<in> set (node_ids g)" and "?L0 u = Some lu"
    by blast
  then show ?thesis by (cases "u = s") simp_all
qed

text \<open>
  C7. In a loaded network with non-negative free-flow costs, let the search find a best
  route from \<open>s\<close> to \<open>t\<close> under a snapshot, and let the weight of any one edge be
  raised, all other weights unchanged. Then the search never reports the destination
  unreachable; every best route it returns has a total cost of at least the total cost
  of the old best route, whether or not the old one used that edge; and it does return
  a route when the expanded-node budget covers the node set.
\<close>

theorem route_search_monotone:
  assumes wf: "wf_graph g"
    and free: "\<forall>e \<in> set (edges g). 0 \<le> free_flow_cost e"
    and up: "snap k \<le> w"
    and found: "route_search budget (edge_cost maxMult snap) g s t = Inr r"
  shows "route_search budget (edge_cost maxMult (snap(k := w))) g s t \<noteq> Inl NoRouteFound \<and>
         (\<forall>r'. route_search budget (edge_cost maxMult (snap(k := w))) g s t = Inr r' \<longrightarrow>
               fst r \<le> fst r') \<and>
         (length (nodes g) \<le> budget \<longrightarrow>
            (\<exists>r'. route_search budget (edge_cost maxMult (snap(k := w))) g s t = Inr r'))"
proof -
  let ?c = "edge_cost maxMult snap" and ?c' = "edge_cost maxMult (snap(k := w))"
  let ?L0 = "Map.empty(s \<mapsto> (0 :: real, [] :: Edge list))"
  from found have s: "s \<in> set (node_ids g)" by (rule route_search_origin)
  from free have nonneg: "\<forall>e \<in> set (edges g). 0 \<le> ?c e"
    and nonneg': "\<forall>e \<in> set (edges g). 0 \<le> ?c' e"
    by (simp_all add: edge_cost_nonneg)
  from free up have mono: "\<forall>e \<in> set (edges g). ?c e \<le> ?c' e"
    by (auto intro!: edge_cost_mono)
  from found have found': "search budget ?c g t (node_ids g) ?L0 = Inr r"
    by (simp add: route_search_def)
  from search_sound_optimal [OF wf nonneg s search_inv_init found']
  have r: "walk g s (snd r) t"
    and best: "\<forall>q. walk g s q t \<longrightarrow> fst r \<le> path_cost ?c q" by blast+
  from wf r s have t: "t \<in> set (node_ids g)" by (rule walk_end_node)
  let ?res = "search budget ?c' g t (node_ids g) ?L0"
  have reachable: "?res \<noteq> Inl NoRouteFound"
    using search_complete [OF wf nonneg' s search_inv_init t, of budget "snd r"] r by blast
  have dearer: "fst r \<le> fst r'" if r': "?res = Inr r'" for r'
  proof -
    from search_sound_optimal [OF wf nonneg' s search_inv_init r']
    have w': "walk g s (snd r') t" and c': "path_cost ?c' (snd r') = fst r'" by blast+
    from best w' have "fst r \<le> path_cost ?c (snd r')" by blast
    also from w' mono have "\<dots> \<le> path_cost ?c' (snd r')"
      by (intro path_cost_mono) (use walk_edges in blast)
    finally show ?thesis using c' by simp
  qed
  have returned: "\<exists>r'. ?res = Inr r'" if "length (nodes g) \<le> budget"
  proof -
    from that have "?res \<noteq> Inl RouteSearchTimeout"
      by (intro search_within_budget) (simp add: node_ids_def)
    moreover have "?res \<noteq> Inl UnresolvableLocation"
      by (rule search_errors)
    ultimately show ?thesis
      using reachable by (cases ?res) (auto intro: route_error.exhaust)
  qed
  from reachable dearer returned show ?thesis
    by (simp add: route_search_def)
qed

theorem route_search_monotone_witness:
  "wf_graph scenario_graph \<and>
   list_all (\<lambda>e. 0 \<le> free_flow_cost e) (edges scenario_graph) \<and>
   length (nodes scenario_graph) \<le> 3 \<and>
   free_flow_snapshot 1 \<le> 3 \<and>
   route_search 3 (edge_cost 3 free_flow_snapshot) scenario_graph 0 1 =
     Inr (8, [\<lparr>edge_id = 1, edge_source = 0, edge_dest = 2, free_flow_cost = 4,
                edge_length = 4\<rparr>,
              \<lparr>edge_id = 2, edge_source = 2, edge_dest = 1, free_flow_cost = 4,
                edge_length = 4\<rparr>]) \<and>
   (\<exists>r'. route_search 3 (edge_cost 3 (free_flow_snapshot(1 := 3))) scenario_graph 0 1 =
            Inr r' \<and> 8 \<le> fst r') \<and>
   route_search 3 (edge_cost 3 (free_flow_snapshot(1 := 3))) scenario_graph 0 1 =
     Inr (10, [\<lparr>edge_id = 0, edge_source = 0, edge_dest = 1, free_flow_cost = 10,
                 edge_length = 10\<rparr>])"
proof -
  have wf: "wf_graph scenario_graph"
    by (simp add: wf_graph_def scenario_graph_def node_ids_def)
  have free: "\<forall>e \<in> set (edges scenario_graph). 0 \<le> free_flow_cost e"
    by (simp add: scenario_graph_def)
  have budget: "length (nodes scenario_graph) \<le> 3"
    by (simp add: scenario_graph_def)
  have up: "free_flow_snapshot 1 \<le> 3"
    by (simp add: free_flow_snapshot_def)
  have found: "route_search 3 (edge_cost 3 free_flow_snapshot) scenario_graph 0 1 =
     Inr (8, [\<lparr>edge_id = 1, edge_source = 0, edge_dest = 2, free_flow_cost = 4,
                edge_length = 4\<rparr>,
              \<lparr>edge_id = 2, edge_source = 2, edge_dest = 1, free_flow_cost = 4,
                edge_length = 4\<rparr>])"
    by code_simp
  from route_search_monotone [OF wf free up found] budget
  have "\<exists>r'. route_search 3 (edge_cost 3 (free_flow_snapshot(1 := 3))) scenario_graph 0 1 =
            Inr r' \<and> 8 \<le> fst r'"
    by fastforce
  moreover
  have "route_search 3 (edge_cost 3 (free_flow_snapshot(1 := 3))) scenario_graph 0 1 =
     Inr (10, [\<lparr>edge_id = 0, edge_source = 0, edge_dest = 1, free_flow_cost = 10,
                 edge_length = 10\<rparr>])"
    by code_simp
  ultimately show ?thesis
    using wf free budget up found by (simp add: list_all_iff)
qed

section \<open>Properties of the effective cost and of route queries\<close>

text \<open>
  C3. For every edge with a non-negative free-flow cost, under every snapshot and after
  every weight update, whatever weight it stores, the effective cost is the free-flow
  cost times the weight clamped between 1.0 and the maximum congestion multiplier: the
  multiplier is never below 1.0, so the free-flow cost is a floor of the effective cost,
  and it is never above a maximum of at least 1.0.
\<close>

theorem effective_cost_floor:
  assumes "0 \<le> free_flow_cost e"
  shows "edge_cost maxMult snap e = free_flow_cost e * clamp (snap (edge_id e)) 1 maxMult \<and>
         1 \<le> clamp (snap (edge_id e)) 1 maxMult \<and>
         free_flow_cost e \<le> edge_cost maxMult snap e \<and>
         1 \<le> clamp ((snap(k := w)) (edge_id e)) 1 maxMult \<and>
         free_flow_cost e \<le> edge_cost maxMult (snap(k := w)) e \<and>
         (1 \<le> maxMult \<longrightarrow> clamp (snap (edge_id e)) 1 maxMult \<le> maxMult)"
proof -
  have floor: "1 \<le> clamp x 1 maxMult" for x by (rule clamp_floor)
  have cost: "free_flow_cost e \<le> free_flow_cost e * clamp x 1 maxMult" for x
    using assms floor [of x] mult_left_mono [of 1 "clamp x 1 maxMult" "free_flow_cost e"]
    by simp
  have ceiling: "clamp x 1 maxMult \<le> maxMult" if "1 \<le> maxMult" for x
    using that unfolding clamp_def by linarith
  show ?thesis
    unfolding edge_cost_def effective_cost_spec_def
    using floor cost ceiling by blast
qed

theorem effective_cost_floor_witness:
  "0 \<le> free_flow_cost
     \<lparr>edge_id = 0, edge_source = 0, edge_dest = 1, free_flow_cost = 10, edge_length = 10\<rparr> \<and>
   edge_cost 3 (uniform_snapshot (1 / 2))
     \<lparr>edge_id = 0, edge_source = 0, edge_dest = 1, free_flow_cost = 10, edge_length = 10\<rparr> = 10 \<and>
   edge_cost 3 ((uniform_snapshot (1 / 2))(0 := 5))
     \<lparr>edge_id = 0, edge_source = 0, edge_dest = 1, free_flow_cost = 10, edge_length = 10\<rparr> = 30 \<and>
   clamp (uniform_snapshot (1 / 2) 0) 1 3 = 1 \<and>
   clamp (((uniform_snapshot (1 / 2))(0 := 5)) 0) 1 3 = 3"
proof -
  let ?e = "\<lparr>edge_id = 0, edge_source = 0, edge_dest = 1, free_flow_cost = 10, edge_length = 10\<rparr>"
  have h: "0 \<le> free_flow_cost ?e" by simp
  from effective_cost_floor [OF h, of 3 "uniform_snapshot (1 / 2)" 0 5] h show ?thesis
    by (simp add: uniform_snapshot_def clamp_def edge_cost_def effective_cost_spec_def)
qed













lemma settle_walk:
  assumes L: "\<forall>v l. L v = Some l \<longrightarrow> walk g s (snd l) v"
  shows "\<forall>v l. settle cost g Q u L v = Some l \<longrightarrow> walk g s (snd l) v"
proof (cases "L u")
  case None
  with L show ?thesis by (simp add: settle_def)
next
  case (Some lu)
  with L have lu: "walk g s (snd lu) u" by blast
  show ?thesis
  proof (intro allI impI)
    fix v l
    assume "settle cost g Q u L v = Some l"
    with Some have "relax_edges cost Q lu (Neighbors g u) L v = Some l"
      by (simp add: settle_def)
    from relax_edges_origin [OF this] show "walk g s (snd l) v"
    proof
      assume "L v = Some l"
      with L show ?thesis by blast
    next
      assume "\<exists>e \<in> set (Neighbors g u). edge_dest e = v \<and> l = (fst lu + cost e, snd lu @ [e])"
      then obtain e where "e \<in> set (edges g)" "edge_source e = u" "edge_dest e = v"
        "snd l = snd lu @ [e]" by (auto simp: Neighbors_iff)
      with lu show ?thesis by (simp add: walk_append)
    qed
  qed
qed

lemma search_walk:
  "\<forall>v l. L v = Some l \<longrightarrow> walk g s (snd l) v \<Longrightarrow>
   search b cost g t Q L = Inr r \<Longrightarrow> walk g s (snd r) t"
proof (induction b arbitrary: Q L)
  case 0
  from "0.prems"(2) have "L t = Some r"
    by (subst (asm) search.simps) (auto split: option.splits if_splits)
  with "0.prems"(1) show ?case by blast
next
  case (Suc b)
  from Suc.prems(2) obtain u where pick: "pick_min Q L = Some u"
    by (subst (asm) search.simps) (auto split: option.splits)
  show ?case
  proof (cases "u = t")
    case True
    with Suc.prems(2) pick have "L t = Some r"
      by (subst (asm) search.simps) (auto split: option.splits)
    with Suc.prems(1) show ?thesis by blast
  next
    case False
    with Suc.prems(2) pick
    have "search b cost g t (removeAll u Q) (settle cost g (removeAll u Q) u L) = Inr r"
      by (subst (asm) search.simps) simp
    from Suc.IH [OF settle_walk [OF Suc.prems(1)] this] show ?thesis .
  qed
qed

lemma route_search_walk:
  assumes "route_search b cost g s t = Inr r"
  shows "walk g s (snd r) t"
proof -
  have "\<forall>v l. (Map.empty(s \<mapsto> (0 :: real, [] :: Edge list))) v = Some l \<longrightarrow> walk g s (snd l) v"
    by (auto split: if_splits)
  moreover from assms
  have "search b cost g t (node_ids g) (Map.empty(s \<mapsto> (0 :: real, [] :: Edge list))) = Inr r"
    by (simp only: route_search_def)
  ultimately show ?thesis by (rule search_walk)
qed

text \<open>
  C2. Every route with at least one edge that \<open>PlanRoute\<close> returns is a path from the
  resolved origin to the resolved destination, carries the weight of each of its edges
  at snapshot time, and has the congestion label of the average of these weights: light
  when the average is below 1.3, moderate when it is below 1.8, heavy when it is at
  least 1.8.
\<close>

theorem PlanRoute_congestion_label:
  assumes run: "PlanRoute metric cfg g snap originCoord destCoord target = Inr r"
    and nonempty: "route_edges r \<noteq> []"
  shows "(\<exists>s t. resolve_location metric (max_snap_distance cfg) g originCoord = Inr s \<and>
            resolve_location metric (max_snap_distance cfg) g destCoord = Inr t \<and>
            walk g s (route_edges r) t) \<and>
         congestion_breakdown r = map (\<lambda>e. (edge_id e, snap (edge_id e))) (route_edges r) \<and>
         traffic_status r =
           (if (\<Sum>e\<leftarrow>route_edges r. snap (edge_id e)) / real (length (route_edges r)) < 13 / 10
              then ''light''
            else if (\<Sum>e\<leftarrow>route_edges r. snap (edge_id e)) / real (length (route_edges r)) < 18 / 10
              then ''moderate''
            else ''heavy'')"
proof -
  from run obtain s t l where
    s: "resolve_location metric (max_snap_distance cfg) g originCoord = Inr s"
    and t: "resolve_location metric (max_snap_distance cfg) g destCoord = Inr t"
    and l: "route_search (node_budget cfg)
              (options_cost target (max_congestion_multiplier cfg) snap) g s t = Inr l"
    and r: "r = make_route snap l"
    by (auto simp: PlanRoute_def split: sum.splits)
  from route_search_walk [OF l] r have "walk g s (route_edges r) t"
    by (simp add: make_route_def)
  with s t r show ?thesis
    by (auto simp: make_route_def congestion_label_spec_def average_weight_spec_def)
qed

theorem PlanRoute_congestion_label_witness:
  "PlanRoute plane_distance
     \<lparr>max_congestion_multiplier = 3, node_budget = 3, max_snap_distance = 2\<rparr>
     scenario_graph (uniform_snapshot (3 / 2)) (0, 0) (0, 2) OptimizeTime =
   Inr \<lparr>route_edges =
          [\<lparr>edge_id = 1, edge_source = 0, edge_dest = 2, free_flow_cost = 4,
             edge_length = 4\<rparr>,
           \<lparr>edge_id = 2, edge_source = 2, edge_dest = 1, free_flow_cost = 4,
             edge_length = 4\<rparr>],
        total_cost = 12, total_distance = 8,
        congestion_breakdown = [(1, 3 / 2), (2, 3 / 2)],
        traffic_status = ''moderate''\<rparr> \<and>
   (3 / 2 + 3 / 2) / 2 < (18 / 10 :: real) \<and> \<not> (3 / 2 + 3 / 2) / 2 < (13 / 10 :: real) \<and>
   (\<exists>s t. walk scenario_graph s
            [\<lparr>edge_id = 1, edge_source = 0, edge_dest = 2, free_flow_cost = 4,
               edge_length = 4\<rparr>,
             \<lparr>edge_id = 2, edge_source = 2, edge_dest = 1, free_flow_cost = 4,
               edge_length = 4\<rparr>] t)"
proof -
  let ?cfg = "\<lparr>max_congestion_multiplier = 3, node_budget = 3, max_snap_distance = 2\<rparr>"
  let ?r = "\<lparr>route_edges =
          [\<lparr>edge_id = 1, edge_source = 0, edge_dest = 2, free_flow_cost = 4,
             edge_length = 4\<rparr>,
           \<lparr>edge_id = 2, edge_source = 2, edge_dest = 1, free_flow_cost = 4,
             edge_length = 4\<rparr>],
        total_cost = 12, total_distance = 8,
        congestion_breakdown = [(1, 3 / 2), (2, 3 / 2)],
        traffic_status = ''moderate''\<rparr>"
  have run: "PlanRoute plane_distance ?cfg scenario_graph (uniform_snapshot (3 / 2))
      (0, 0) (0, 2) OptimizeTime = Inr ?r"
    by code_simp
  have nonempty: "route_edges ?r \<noteq> []" by simp
  from PlanRoute_congestion_label [OF run nonempty]
  have "\<exists>s t. walk scenario_graph s (route_edges ?r) t" by blast
  with run show ?thesis by simp
qed

end
